theory Spec2Isabelle
  imports Main "HOL-Library.Word"
begin

unbundle bit_operations_syntax

section \<open>The unified reduction policy (b40c/reduction/policy.cuh)\<close>

text \<open>
  \<open>Policy\<close> is a class template: its template arguments are the tunables, and its three
  member typedefs \<open>Upsweep\<close>, \<open>Spine\<close> and \<open>Single\<close> are instances of the
  \<open>KernelPolicy\<close> template. A template instantiation is a function from its arguments
  to the constants of the instance, so the tunables are a record, and each typedef is a
  function from that record to the record of the eleven arguments handed to
  \<open>KernelPolicy\<close>, in the order the source hands them over. The problem type and the
  two cache-modifier enumerations are declared in headers that are not part of the
  sources at hand; they are type parameters here.
\<close>

record ('p, 'r, 'w) Policy =
  ProblemType :: 'p
  CUDA_ARCH :: int
  READ_MODIFIER :: 'r
  WRITE_MODIFIER :: 'w
  WORK_STEALING :: bool
  UNIFORM_SMEM_ALLOCATION :: bool
  UNIFORM_GRID_SIZE :: bool
  OVERSUBSCRIBED_GRID_SIZE :: bool
  UPSWEEP_MAX_CTA_OCCUPANCY :: int
  UPSWEEP_LOG_THREADS :: int
  UPSWEEP_LOG_LOAD_VEC_SIZE :: int
  UPSWEEP_LOG_LOADS_PER_TILE :: int
  UPSWEEP_LOG_SCHEDULE_GRANULARITY :: int
  SPINE_LOG_THREADS :: int
  SPINE_LOG_LOAD_VEC_SIZE :: int
  SPINE_LOG_LOADS_PER_TILE :: int

record ('p, 'r, 'w) KernelPolicy =
  kp_ProblemType :: 'p
  kp_CUDA_ARCH :: int
  kp_CHECK_ALIGNMENT :: bool
  kp_MAX_CTA_OCCUPANCY :: int
  kp_LOG_THREADS :: int
  kp_LOG_LOAD_VEC_SIZE :: int
  kp_LOG_LOADS_PER_TILE :: int
  kp_READ_MODIFIER :: 'r
  kp_WRITE_MODIFIER :: 'w
  kp_WORK_STEALING :: bool
  kp_LOG_SCHEDULE_GRANULARITY :: int

text \<open>Kernel config for the upsweep reduction kernel (policy.cuh, lines 97 to 109).\<close>

definition Upsweep :: "('p, 'r, 'w) Policy \<Rightarrow> ('p, 'r, 'w) KernelPolicy" where
  "Upsweep P =
     \<lparr> kp_ProblemType = ProblemType P,
       kp_CUDA_ARCH = CUDA_ARCH P,
       kp_CHECK_ALIGNMENT = True,
       kp_MAX_CTA_OCCUPANCY = UPSWEEP_MAX_CTA_OCCUPANCY P,
       kp_LOG_THREADS = UPSWEEP_LOG_THREADS P,
       kp_LOG_LOAD_VEC_SIZE = UPSWEEP_LOG_LOAD_VEC_SIZE P,
       kp_LOG_LOADS_PER_TILE = UPSWEEP_LOG_LOADS_PER_TILE P,
       kp_READ_MODIFIER = READ_MODIFIER P,
       kp_WRITE_MODIFIER = WRITE_MODIFIER P,
       kp_WORK_STEALING = WORK_STEALING P,
       kp_LOG_SCHEDULE_GRANULARITY = UPSWEEP_LOG_SCHEDULE_GRANULARITY P \<rparr>"

text \<open>Kernel config for the spine reduction kernel (lines 114 to 126).\<close>

definition Spine :: "('p, 'r, 'w) Policy \<Rightarrow> ('p, 'r, 'w) KernelPolicy" where
  "Spine P =
     \<lparr> kp_ProblemType = ProblemType P,
       kp_CUDA_ARCH = CUDA_ARCH P,
       kp_CHECK_ALIGNMENT = False,
       kp_MAX_CTA_OCCUPANCY = 1,
       kp_LOG_THREADS = SPINE_LOG_THREADS P,
       kp_LOG_LOAD_VEC_SIZE = SPINE_LOG_LOAD_VEC_SIZE P,
       kp_LOG_LOADS_PER_TILE = SPINE_LOG_LOADS_PER_TILE P,
       kp_READ_MODIFIER = READ_MODIFIER P,
       kp_WRITE_MODIFIER = WRITE_MODIFIER P,
       kp_WORK_STEALING = False,
       kp_LOG_SCHEDULE_GRANULARITY =
         SPINE_LOG_LOADS_PER_TILE P + SPINE_LOG_LOAD_VEC_SIZE P + SPINE_LOG_THREADS P \<rparr>"

text \<open>Kernel config for a one-level pass using the spine reduction kernel (lines 131 to 143).\<close>

definition Single :: "('p, 'r, 'w) Policy \<Rightarrow> ('p, 'r, 'w) KernelPolicy" where
  "Single P =
     \<lparr> kp_ProblemType = ProblemType P,
       kp_CUDA_ARCH = CUDA_ARCH P,
       kp_CHECK_ALIGNMENT = True,
       kp_MAX_CTA_OCCUPANCY = 1,
       kp_LOG_THREADS = SPINE_LOG_THREADS P,
       kp_LOG_LOAD_VEC_SIZE = SPINE_LOG_LOAD_VEC_SIZE P,
       kp_LOG_LOADS_PER_TILE = SPINE_LOG_LOADS_PER_TILE P,
       kp_READ_MODIFIER = READ_MODIFIER P,
       kp_WRITE_MODIFIER = WRITE_MODIFIER P,
       kp_WORK_STEALING = False,
       kp_LOG_SCHEDULE_GRANULARITY =
         SPINE_LOG_LOADS_PER_TILE P + SPINE_LOG_LOAD_VEC_SIZE P + SPINE_LOG_THREADS P \<rparr>"

text \<open>
  Kernel function pointer retrieval (lines 150 to 160). A kernel entry point is the
  instance of one of the two kernel templates at a kernel configuration; the pointer
  types of the source are pointers, so an accessor's result is an \<open>option\<close>, with
  \<open>None\<close> for the null pointer. Each accessor returns the address of a function.
\<close>

datatype ('p, 'r, 'w) kernel =
    upsweep_Kernel "('p, 'r, 'w) KernelPolicy"
  | spine_Kernel "('p, 'r, 'w) KernelPolicy"

definition UpsweepKernel :: "('p, 'r, 'w) Policy \<Rightarrow> ('p, 'r, 'w) kernel option" where
  "UpsweepKernel P = Some (upsweep_Kernel (Upsweep P))"

definition SpineKernel :: "('p, 'r, 'w) Policy \<Rightarrow> ('p, 'r, 'w) kernel option" where
  "SpineKernel P = Some (spine_Kernel (Spine P))"

definition SingleKernel :: "('p, 'r, 'w) Policy \<Rightarrow> ('p, 'r, 'w) kernel option" where
  "SingleKernel P = Some (spine_Kernel (Single P))"

text \<open>
  The constant \<open>VALID\<close> of the enum at lines 166 to 171. The \<open>VALID\<close> member of a
  \<open>KernelPolicy\<close> instance is computed in \<open>kernel_policy.cuh\<close>, which is not among the
  sources; it is the parameter \<open>kp_VALID\<close>, a function of the instance's arguments, and
  a model of it after the spec follows. On the two flags of the source \<open>&\<close> is
  conjunction.
\<close>

definition VALID ::
  "(('p, 'r, 'w) KernelPolicy \<Rightarrow> bool) \<Rightarrow> ('p, 'r, 'w) Policy \<Rightarrow> bool" where
  "VALID kp_VALID P = (kp_VALID (Upsweep P) \<and> kp_VALID (Spine P))"



text \<open>A set of tunables, and an architecture that no kernel configuration fits, for the examples.\<close>

definition example_policy :: "(unit, unit, unit) Policy" where
  "example_policy =
     \<lparr> ProblemType = (), CUDA_ARCH = 200, READ_MODIFIER = (), WRITE_MODIFIER = (),
       WORK_STEALING = True, UNIFORM_SMEM_ALLOCATION = False, UNIFORM_GRID_SIZE = False,
       OVERSUBSCRIBED_GRID_SIZE = True,
       UPSWEEP_MAX_CTA_OCCUPANCY = 8, UPSWEEP_LOG_THREADS = 7,
       UPSWEEP_LOG_LOAD_VEC_SIZE = 1, UPSWEEP_LOG_LOADS_PER_TILE = 2,
       UPSWEEP_LOG_SCHEDULE_GRANULARITY = 10,
       SPINE_LOG_THREADS = 8, SPINE_LOG_LOAD_VEC_SIZE = 2, SPINE_LOG_LOADS_PER_TILE = 1 \<rparr>"

definition fits_nothing :: "(unit, unit, unit) KernelPolicy \<Rightarrow> bool" where
  "fits_nothing k = False"


section \<open>The histogram scan (sort/src/kernels/sorthist.cu)\<close>

text \<open>
  \<open>uint\<close> is a 32-bit unsigned integer: \<open>+\<close>, \<open>-\<close> and \<open>*\<close> wrap. An array, in global
  or in shared memory, is the function from an index to the \<open>uint\<close> stored there,
  indexed from its base pointer. The contents of shared memory at kernel entry are
  whatever was left there: they are arguments of the model, and the theorems hold for
  all of them.
\<close>

type_synonym uint = "32 word"
type_synonym array = "nat \<Rightarrow> uint"

text \<open>
  Modelled from the spec: the constants \<open>WARP_SIZE\<close> and \<open>LOG_WARP_SIZE\<close> of
  \<open>common.cu\<close>, which is not among the sources. The spec gives the hardware warp
  width as 32.
\<close>

definition WARP_SIZE :: nat where
  "WARP_SIZE = 32"

definition LOG_WARP_SIZE :: nat where
  "LOG_WARP_SIZE = 5"

definition NumDigits :: "nat \<Rightarrow> nat" where
  "NumDigits NumBits = push_bit NumBits 1"

definition lane :: "nat \<Rightarrow> nat" where
  "lane tid = (WARP_SIZE - 1) AND tid"

definition lane2 :: "nat \<Rightarrow> nat \<Rightarrow> nat" where
  "lane2 NumBits tid = (NumDigits NumBits - 1) AND tid"

definition warp :: "nat \<Rightarrow> nat" where
  "warp tid = tid div WARP_SIZE"

text \<open>
  A device function is run by the \<open>NumThreads\<close> threads of a block together. The model
  runs a statement for all threads before the next one: a local variable is a function
  from the thread id to its value in that thread, and a store to an array is done by
  every thread for which the guard holds, thread by thread, after the right-hand sides
  have been read. This is the order the code relies on: the threads of a warp run in
  lockstep, \<open>__syncthreads\<close> separates the phases, and between two barriers no thread
  reads or writes an element that a thread of another warp writes.
\<close>

definition store :: "nat \<Rightarrow> (nat \<Rightarrow> bool) \<Rightarrow> (nat \<Rightarrow> nat) \<Rightarrow> (nat \<Rightarrow> uint) \<Rightarrow> array \<Rightarrow> array" where
  "store NumThreads active addr val a =
     fold (\<lambda>tid a. if active tid then a(addr tid := val tid) else a) [0..<NumThreads] a"

subsection \<open>StridedMultiScan, fewer digits than lanes of a warp (lines 20 to 86)\<close>

text \<open>One iteration of the loop at lines 27 to 31.\<close>

definition lane_scan_step ::
  "nat \<Rightarrow> nat \<Rightarrow> nat \<Rightarrow> (nat \<Rightarrow> uint) \<times> array \<Rightarrow> (nat \<Rightarrow> uint) \<times> array" where
  "lane_scan_step NumThreads NumBits i = (\<lambda>(x, shared).
     let offset = push_bit i (NumDigits NumBits);
         x = (\<lambda>tid. if offset \<le> lane tid then x tid + shared (tid - offset) else x tid)
     in (x, store NumThreads (\<lambda>tid. True) (\<lambda>tid. tid) x shared))"

text \<open>One iteration of the loop at lines 50 to 54, run by the warps below \<open>NumDigits\<close>.\<close>

definition digit_scan_step ::
  "nat \<Rightarrow> nat \<Rightarrow> nat \<Rightarrow> (nat \<Rightarrow> uint) \<times> array \<Rightarrow> (nat \<Rightarrow> uint) \<times> array" where
  "digit_scan_step NumThreads NumBits i = (\<lambda>(x, shared).
     let active = (\<lambda>tid. warp tid < NumDigits NumBits);
         warpShared = (\<lambda>tid. (WARP_SIZE + 1) * warp tid);
         offset = push_bit i 1;
         x = (\<lambda>tid. if active tid \<and> offset \<le> lane tid
                     then x tid + shared (warpShared tid + (lane tid - offset)) else x tid)
     in (x, store NumThreads active (\<lambda>tid. warpShared tid + lane tid) x shared))"

text \<open>One iteration of the loop at lines 72 to 77, run by the threads below \<open>NumDigits\<close>.\<close>

definition totals_scan_step ::
  "nat \<Rightarrow> nat \<Rightarrow> (nat \<Rightarrow> uint) \<Rightarrow> nat \<Rightarrow> (nat \<Rightarrow> uint) \<times> array \<Rightarrow> (nat \<Rightarrow> uint) \<times> array" where
  "totals_scan_step NumThreads NumBits count i = (\<lambda>(x, totals_shared).
     let active = (\<lambda>tid. tid < NumDigits NumBits);
         offset = push_bit i 1;
         x = (\<lambda>tid. if active tid \<and> offset \<le> tid
                     then x tid + totals_shared (tid - offset) else x tid);
         x = (\<lambda>tid. if active tid \<and> i = NumBits - 1 then x tid - count tid else x tid)
     in (x, store NumThreads active (\<lambda>tid. tid) x totals_shared))"

text \<open>
  The first branch of \<open>StridedMultiScan\<close>, phase by phase; the phases are separated by
  \<open>__syncthreads\<close>. Lines 23 to 31: the inclusive scan over repeated digits in the same
  warp.
\<close>

definition lane_scan :: "nat \<Rightarrow> nat \<Rightarrow> (nat \<Rightarrow> uint) \<Rightarrow> array \<Rightarrow> (nat \<Rightarrow> uint) \<times> array" where
  "lane_scan NumThreads NumBits x shared =
     (let shared = store NumThreads (\<lambda>tid. True) (\<lambda>tid. tid) x shared
      in fold (lane_scan_step NumThreads NumBits) [0..<5 - NumBits] (x, shared))"

text \<open>Lines 37 and 38: the last digit in each warp (the warp total) goes into shared memory.\<close>

definition warp_totals :: "nat \<Rightarrow> nat \<Rightarrow> (nat \<Rightarrow> uint) \<Rightarrow> array \<Rightarrow> array" where
  "warp_totals NumThreads NumBits x shared =
     store NumThreads (\<lambda>tid. WARP_SIZE - NumDigits NumBits \<le> lane tid)
       (\<lambda>tid. (WARP_SIZE + 1) * lane2 NumBits tid + warp tid) x shared"

text \<open>Lines 42 to 62: \<open>NumDigits\<close> simultaneous scans, one warp for each digit.\<close>

definition digit_scan ::
  "nat \<Rightarrow> nat \<Rightarrow> (nat \<Rightarrow> uint) \<Rightarrow> array \<Rightarrow> array \<Rightarrow> (nat \<Rightarrow> uint) \<times> array \<times> array" where
  "digit_scan NumThreads NumBits x shared totals_shared =
     (let active = (\<lambda>tid. warp tid < NumDigits NumBits);
          warpShared = (\<lambda>tid. (WARP_SIZE + 1) * warp tid);
          x = (\<lambda>tid. if active tid then shared (warpShared tid + lane tid) else x tid);
          count = x;
          (x, shared) = fold (digit_scan_step NumThreads NumBits) [0..<LOG_WARP_SIZE] (x, shared);
          totals_shared = store NumThreads (\<lambda>tid. active tid \<and> WARP_SIZE - 1 = lane tid)
                            warp x totals_shared;
          shared = store NumThreads active (\<lambda>tid. warpShared tid + lane tid)
                     (\<lambda>tid. x tid - count tid) shared
      in (x, shared, totals_shared))"

text \<open>Lines 67 to 78: the exclusive scan of the digit totals.\<close>

definition totals_scan :: "nat \<Rightarrow> nat \<Rightarrow> (nat \<Rightarrow> uint) \<Rightarrow> array \<Rightarrow> (nat \<Rightarrow> uint) \<times> array" where
  "totals_scan NumThreads NumBits x totals_shared =
     (let active = (\<lambda>tid. tid < NumDigits NumBits);
          x = (\<lambda>tid. if active tid then totals_shared tid else x tid);
          count = x
      in fold (totals_scan_step NumThreads NumBits count) [0..<NumBits] (x, totals_shared))"

text \<open>
  The whole branch. The result is the value each thread returns and the two shared
  arrays as the function leaves them.
\<close>

definition StridedMultiScan_parallel ::
  "nat \<Rightarrow> nat \<Rightarrow> (nat \<Rightarrow> uint) \<Rightarrow> array \<Rightarrow> array \<Rightarrow> (nat \<Rightarrow> uint) \<times> array \<times> array" where
  "StridedMultiScan_parallel NumThreads NumBits x shared totals_shared =
     (let count = x;
          (x, shared) = lane_scan NumThreads NumBits x shared;
          laneExc = (\<lambda>tid. x tid - count tid);
          shared = warp_totals NumThreads NumBits x shared;
          (x, shared, totals_shared) = digit_scan NumThreads NumBits x shared totals_shared;
          (x, totals_shared) = totals_scan NumThreads NumBits x totals_shared;
          totalExc = (\<lambda>tid. totals_shared (lane2 NumBits tid));
          warpExc = (\<lambda>tid. shared (lane2 NumBits tid * (WARP_SIZE + 1) + warp tid))
      in (\<lambda>tid. totalExc tid + warpExc tid + laneExc tid, shared, totals_shared))"

subsection \<open>StridedMultiScan, 32, 64 or 128 digits (lines 88 to 147)\<close>

text \<open>One iteration of the loop at lines 99 to 103, run by the threads below \<open>NumDigits\<close>.\<close>

definition duplicate_scan_step ::
  "nat \<Rightarrow> nat \<Rightarrow> nat \<Rightarrow> (nat \<Rightarrow> uint) \<times> array \<Rightarrow> (nat \<Rightarrow> uint) \<times> array" where
  "duplicate_scan_step NumThreads NumBits i = (\<lambda>(x, shared).
     let active = (\<lambda>tid. tid < NumDigits NumBits);
         y = (\<lambda>tid. shared (i * NumDigits NumBits + tid));
         shared = store NumThreads active (\<lambda>tid. i * NumDigits NumBits + tid) x shared;
         x = (\<lambda>tid. if active tid then x tid + y tid else x tid)
     in (x, shared))"

text \<open>
  Modelled from the spec: \<open>IntraWarpParallelScan\<close>, \<open>IntraWarpScan64\<close> and
  \<open>IntraWarpScan128\<close> of \<open>common.cu\<close>, which is not among the sources. The spec
  describes them as returning the inclusive or exclusive prefix sum across a group of 32,
  64 or 128 lanes, two or four values packed per lane for the wider groups, and says the
  per-digit totals are exclusive-scanned with them. The first scans the leading
  \<open>2 ^ NumBits\<close> elements of its buffer in place. The other two return the scanned
  values of each lane; the spec does not say what they leave in the buffer they use as
  scratch, and the model leaves it as it was: every element read after the call is
  written between the call and the read (lines 123, 124 and 138 to 141).
\<close>

definition IntraWarpParallelScan :: "nat \<Rightarrow> array \<Rightarrow> bool \<Rightarrow> array" where
  "IntraWarpParallelScan NumBits shared inclusive =
     (\<lambda>j. if j < 2 ^ NumBits
          then (\<Sum>k<j. shared k) + (if inclusive then shared j else 0)
          else shared j)"

definition IntraWarpScan64 :: "(nat \<Rightarrow> uint \<times> uint) \<Rightarrow> nat \<Rightarrow> uint \<times> uint" where
  "IntraWarpScan64 val tid =
     (let excl = (\<Sum>t<tid. fst (val t) + snd (val t))
      in (excl, excl + fst (val tid)))"

definition IntraWarpScan128 ::
  "(nat \<Rightarrow> uint \<times> uint \<times> uint \<times> uint) \<Rightarrow> nat \<Rightarrow> uint \<times> uint \<times> uint \<times> uint" where
  "IntraWarpScan128 val tid =
     (let total = (\<lambda>(x, y, z, w). x + y + z + w);
          excl = (\<Sum>t<tid. total (val t))
      in case val tid of (x, y, z, w) \<Rightarrow> (excl, excl + x, excl + x + y, excl + x + y + z))"

text \<open>
  Lines 110 to 143: the scan of the digit totals, run by the threads of the first warp.
\<close>

definition scan_digit_totals :: "nat \<Rightarrow> nat \<Rightarrow> array \<Rightarrow> array" where
  "scan_digit_totals NumThreads NumBits totals_shared =
     (let active = (\<lambda>tid. tid < WARP_SIZE)
      in if 5 = NumBits then
           IntraWarpParallelScan NumBits totals_shared False
         else if 6 = NumBits then
           (let index = (\<lambda>tid. 2 * tid + (2 * tid) div WARP_SIZE);
                val = (\<lambda>tid. (totals_shared (index tid), totals_shared (index tid + 1)));
                val = IntraWarpScan64 val;
                totals_shared = store NumThreads active index (\<lambda>tid. fst (val tid)) totals_shared;
                totals_shared = store NumThreads active (\<lambda>tid. index tid + 1)
                                  (\<lambda>tid. snd (val tid)) totals_shared
            in totals_shared)
         else if 7 = NumBits then
           (let index = (\<lambda>tid. 4 * tid + (4 * tid) div WARP_SIZE);
                val = (\<lambda>tid. (totals_shared (index tid), totals_shared (index tid + 1),
                              totals_shared (index tid + 2), totals_shared (index tid + 3)));
                val = IntraWarpScan128 val;
                totals_shared = store NumThreads active index
                                  (\<lambda>tid. fst (val tid)) totals_shared;
                totals_shared = store NumThreads active (\<lambda>tid. index tid + 1)
                                  (\<lambda>tid. fst (snd (val tid))) totals_shared;
                totals_shared = store NumThreads active (\<lambda>tid. index tid + 2)
                                  (\<lambda>tid. fst (snd (snd (val tid)))) totals_shared;
                totals_shared = store NumThreads active (\<lambda>tid. index tid + 3)
                                  (\<lambda>tid. snd (snd (snd (val tid)))) totals_shared
            in totals_shared)
         else totals_shared)"

text \<open>Lines 94 to 107: the sequential scan over the duplicates of each digit.\<close>

definition duplicate_scan ::
  "nat \<Rightarrow> nat \<Rightarrow> (nat \<Rightarrow> uint) \<Rightarrow> array \<Rightarrow> array \<Rightarrow> (nat \<Rightarrow> uint) \<times> array \<times> array" where
  "duplicate_scan NumThreads NumBits x shared totals_shared =
     (let active = (\<lambda>tid. tid < NumDigits NumBits);
          NumDuplicates = NumThreads div NumDigits NumBits;
          x = (\<lambda>tid. if active tid then 0 else x tid);
          (x, shared) = fold (duplicate_scan_step NumThreads NumBits) [0..<NumDuplicates] (x, shared);
          totals_shared = store NumThreads active (\<lambda>tid. tid + tid div WARP_SIZE) x totals_shared
      in (x, shared, totals_shared))"

text \<open>The whole branch.\<close>

definition StridedMultiScan_sequential ::
  "nat \<Rightarrow> nat \<Rightarrow> (nat \<Rightarrow> uint) \<Rightarrow> array \<Rightarrow> array \<Rightarrow> (nat \<Rightarrow> uint) \<times> array \<times> array" where
  "StridedMultiScan_sequential NumThreads NumBits x shared totals_shared =
     (let shared = store NumThreads (\<lambda>tid. True) (\<lambda>tid. tid) x shared;
          (x, shared, totals_shared) = duplicate_scan NumThreads NumBits x shared totals_shared;
          totals_shared = scan_digit_totals NumThreads NumBits totals_shared;
          exc = (\<lambda>tid. totals_shared (lane2 NumBits tid + lane2 NumBits tid div WARP_SIZE)
                        + shared tid)
      in (exc, shared, totals_shared))"

definition StridedMultiScan ::
  "nat \<Rightarrow> nat \<Rightarrow> (nat \<Rightarrow> uint) \<Rightarrow> array \<Rightarrow> array \<Rightarrow> (nat \<Rightarrow> uint) \<times> array \<times> array" where
  "StridedMultiScan NumThreads NumBits x shared totals_shared =
     (if NumDigits NumBits < WARP_SIZE
      then StridedMultiScan_parallel NumThreads NumBits x shared totals_shared
      else StridedMultiScan_sequential NumThreads NumBits x shared totals_shared)"

subsection \<open>SortHist (lines 155 to 201)\<close>

text \<open>
  Modelled from the spec: \<open>ComputeTaskRange\<close> of \<open>common.cu\<close>, which is not among the
  sources. The spec describes a balanced range split: every column gets \<open>quot\<close> tasks,
  and the remainder is distributed one extra unit to the first \<open>remainder\<close> columns.
  The call hands over two more arguments, the segment size 1 and the task count; the
  model scales the range by the first and limits its end by the second.
\<close>

definition ComputeTaskRange :: "nat \<Rightarrow> nat \<Rightarrow> nat \<Rightarrow> nat \<Rightarrow> nat \<Rightarrow> nat \<times> nat" where
  "ComputeTaskRange block taskQuot taskRem segSize count =
     (let x = taskQuot * block + min block taskRem;
          y = x + taskQuot + (if block < taskRem then 1 else 0)
      in (x * segSize, min (y * segSize) count))"

text \<open>
  The two loops of a thread over its interval of the block counts. The loop counter is an
  \<open>int\<close> in the source and a natural number here: the two agree as long as the array,
  of \<open>NumDigits * numTasks\<close> elements, has fewer than \<open>2 ^ 31\<close> of them, which the
  theorems assume. The second loop also records, in \<open>laneExc_at\<close>, the value of
  \<open>laneExc\<close> at the moment the slot is overwritten: the unscaled offset of the slot.
\<close>

function upsweep :: "nat \<Rightarrow> array \<Rightarrow> nat \<Rightarrow> nat \<Rightarrow> uint \<Rightarrow> uint" where
  "upsweep NumBits blockTotals_global i end laneCount =
     (if i < end
      then upsweep NumBits blockTotals_global (i + NumDigits NumBits) end
             (laneCount + blockTotals_global i)
      else laneCount)"
  by pat_completeness auto
termination
  by (relation "measure (\<lambda>(NumBits, blockTotals_global, i, end, laneCount). end - i)")
    (auto simp: NumDigits_def intro: diff_less_mono2)

function downsweep :: "nat \<Rightarrow> nat \<Rightarrow> nat \<Rightarrow> uint \<Rightarrow> array \<times> array \<Rightarrow> array \<times> array" where
  "downsweep NumBits i end laneExc (blockTotals_global, laneExc_at) =
     (if i < end
      then let blockCount = blockTotals_global i
           in downsweep NumBits (i + NumDigits NumBits) end (laneExc + blockCount)
                (blockTotals_global(i := 4 * laneExc), laneExc_at(i := laneExc))
      else (blockTotals_global, laneExc_at))"
  by pat_completeness auto
termination
  by (relation "measure (\<lambda>(NumBits, i, end, laneExc, arrays). end - i)")
    (auto simp: NumDigits_def intro: diff_less_mono2)

declare upsweep.simps [simp del]
declare downsweep.simps [simp del]

text \<open>
  The kernel. \<open>totalsScan_global\<close> is \<open>None\<close> for the null pointer. The threads run
  their second loop one after the other; they write pairwise disjoint slots, so the
  order does not matter.
\<close>

record SortHist_result =
  blockTotals :: array
  totalsScan :: "array option"
  unscaled :: array

text \<open>Lines 160 and 169 to 173: the interval of the block counts assigned to a thread's column.\<close>

definition task_range :: "nat \<Rightarrow> nat \<Rightarrow> uint \<Rightarrow> nat \<Rightarrow> nat \<times> nat" where
  "task_range NumThreads NumBits numTasks tid =
     (let NumColumns = NumThreads div NumDigits NumBits;
          col = tid div NumDigits NumBits;
          quot = numTasks div of_nat NumColumns;
          rem = of_nat (NumColumns - 1) AND numTasks
      in ComputeTaskRange col (unat quot) (unat rem) 1 (unat numTasks))"

definition SortHist ::
  "nat \<Rightarrow> nat \<Rightarrow> array \<Rightarrow> uint \<Rightarrow> array option \<Rightarrow> array \<Rightarrow> array \<Rightarrow> SortHist_result" where
  "SortHist NumThreads NumBits blockTotals_global numTasks totalsScan_global
     counts_shared totals_shared =
     (let range = task_range NumThreads NumBits numTasks;
          start = (\<lambda>tid. NumDigits NumBits * fst (range tid) + lane2 NumBits tid);
          end = (\<lambda>tid. NumDigits NumBits * snd (range tid));
          laneCount = (\<lambda>tid. upsweep NumBits blockTotals_global (start tid) (end tid) 0);
          (laneExc, counts_shared, totals_shared) =
            StridedMultiScan NumThreads NumBits laneCount counts_shared totals_shared;
          totalsScan_global =
            map_option (store NumThreads (\<lambda>tid. tid < NumDigits NumBits) (\<lambda>tid. tid)
                          (\<lambda>tid. totals_shared (tid + tid div WARP_SIZE)))
              totalsScan_global;
          (blockTotals_global, laneExc_at) =
            fold (\<lambda>tid. downsweep NumBits (start tid) (end tid) (laneExc tid))
              [0..<NumThreads] (blockTotals_global, \<lambda>i. 0)
      in \<lparr> blockTotals = blockTotals_global, totalsScan = totalsScan_global,
           unscaled = laneExc_at \<rparr>)"

text \<open>The kernels generated at lines 212 to 218, for blocks of 1024 threads.\<close>

definition SortHist_1 :: "array \<Rightarrow> uint \<Rightarrow> array option \<Rightarrow> array \<Rightarrow> array \<Rightarrow> SortHist_result" where
  "SortHist_1 = SortHist 1024 1"

definition SortHist_5 :: "array \<Rightarrow> uint \<Rightarrow> array option \<Rightarrow> array \<Rightarrow> array \<Rightarrow> SortHist_result" where
  "SortHist_5 = SortHist 1024 5"


section \<open>Notions for the statements and the proofs\<close>

text \<open>
  The definitions of this section are not part of the program. They name the sums the
  kernel is compared with, and the intermediate values of the proofs.
\<close>

primrec hs :: "nat \<Rightarrow> nat \<Rightarrow> (nat \<Rightarrow> uint) \<Rightarrow> nat \<Rightarrow> uint" where
  "hs s 0 v p = v p"
| "hs s (Suc k) v p =
     (if s * 2 ^ k \<le> p then hs s k v p + hs s k v (p - s * 2 ^ k) else hs s k v p)"

definition digit_total :: "nat \<Rightarrow> nat \<Rightarrow> (nat \<Rightarrow> uint) \<Rightarrow> nat \<Rightarrow> uint" where
  "digit_total D C x d = (\<Sum>c<C. x (c * D + d))"

definition strided_exclusive :: "nat \<Rightarrow> nat \<Rightarrow> (nat \<Rightarrow> uint) \<Rightarrow> nat \<Rightarrow> uint" where
  "strided_exclusive D C x t =
     (\<Sum>d<t mod D. digit_total D C x d) + (\<Sum>c<t div D. x (c * D + t mod D))"

definition warp_total :: "nat \<Rightarrow> (nat \<Rightarrow> uint) \<Rightarrow> nat \<Rightarrow> nat \<Rightarrow> uint" where
  "warp_total n x d w = (\<Sum>c<2 ^ (5 - n). x (32 * w + c * 2 ^ n + d))"

definition range_start :: "nat \<Rightarrow> nat \<Rightarrow> nat \<Rightarrow> nat" where
  "range_start C T c = T div C * c + min c (T mod C)"

definition sweep_val :: "nat \<Rightarrow> array \<Rightarrow> nat \<Rightarrow> nat \<Rightarrow> uint \<Rightarrow> nat \<Rightarrow> uint" where
  "sweep_val D g d a ex k = ex + (\<Sum>k' = a..<k. g (D * k' + d))"

definition owns :: "nat \<Rightarrow> (nat \<Rightarrow> nat) \<Rightarrow> nat \<Rightarrow> nat \<Rightarrow> bool" where
  "owns D rx t j \<longleftrightarrow> j mod D = t mod D \<and> rx (t div D) \<le> j div D \<and> j div D < rx (Suc (t div D))"

definition exclusive_prefix :: "nat \<Rightarrow> nat \<Rightarrow> array \<Rightarrow> nat \<Rightarrow> nat \<Rightarrow> uint" where
  "exclusive_prefix D T counts b d =
     (\<Sum>d'<d. \<Sum>b'<T. counts (D * b' + d')) + (\<Sum>b'<b. counts (D * b' + d))"

definition lane_count :: "nat \<Rightarrow> array \<Rightarrow> uint \<Rightarrow> nat \<Rightarrow> uint" where
  "lane_count n g numTasks tid =
     upsweep n g (NumDigits n * fst (task_range 1024 n numTasks tid) + lane2 n tid)
       (NumDigits n * snd (task_range 1024 n numTasks tid)) 0"

definition column_range :: "nat \<Rightarrow> uint \<Rightarrow> nat \<Rightarrow> nat \<times> nat" where
  "column_range NumBits numTasks col = task_range 1024 NumBits numTasks (col * NumDigits NumBits)"

definition range_length :: "nat \<times> nat \<Rightarrow> nat" where
  "range_length r = snd r - fst r"

definition idle :: array where
  "idle i = 0"

text \<open>
  The slots of the block counts in the order of the scan, digit-major then block-major:
  the \<open>k\<close>-th slot holds the count of digit \<open>k div T\<close> in block \<open>k mod T\<close>, and the counts of
  a block are \<open>D\<close> consecutive elements of the array.
\<close>

definition slot :: "nat \<Rightarrow> nat \<Rightarrow> nat \<Rightarrow> nat" where
  "slot D T k = D * (k mod T) + k div T"

text \<open>
  The counts of four blocks over two digits, in the layout of the array: block 0 counted
  3 keys of digit 0 and 1 of digit 1, block 1 counted 1 and 5, block 2 counted 4 and 9,
  block 3 counted 1 and 2.
\<close>

definition example_counts :: array where
  "example_counts i = (if i < 8 then [3, 1, 1, 5, 4, 9, 1, 2] ! i else 0)"

text \<open>
  Scattering \<open>len k\<close> items to the positions from \<open>off k\<close> on, for each of \<open>m\<close> slots, fills
  the positions below \<open>whole\<close> without a gap and without an overlap: the interval of every
  slot lies below \<open>whole\<close>, and every position below \<open>whole\<close> is in the interval of exactly
  one slot.
\<close>

definition partitions :: "nat \<Rightarrow> (nat \<Rightarrow> nat) \<Rightarrow> (nat \<Rightarrow> nat) \<Rightarrow> nat \<Rightarrow> bool" where
  "partitions m off len whole \<longleftrightarrow>
     (\<forall>k<m. off k + len k \<le> whole)
   \<and> (\<forall>x<whole. \<exists>!k. k < m \<and> off k \<le> x \<and> x < off k + len k)"

text \<open>
  Counts of two blocks over two digits whose sum does not fit 32 bits: block 0 counted
  \<open>2 ^ 32 - 1\<close> keys of digit 0 and 1 of digit 1, block 1 counted 2 and 3.
\<close>

definition overflow_counts :: array where
  "overflow_counts i = (if i < 4 then [4294967295, 1, 2, 3] ! i else 0)"

text \<open>
  Counts of two blocks over two digits whose scaled offsets do not fit 32 bits: block 0
  counted \<open>2 ^ 30\<close> keys of digit 0, and nothing else was counted.
\<close>

definition wrap_counts :: array where
  "wrap_counts i = (if i = 0 then 2 ^ 30 else 0)"

text \<open>
  Counts of one block over two digits, with a large count in the last slot: 1 key of
  digit 0 and \<open>2 ^ 30\<close> keys of digit 1.
\<close>

definition late_counts :: array where
  "late_counts i = (if i = 0 then 1 else if i = 1 then 2 ^ 30 else 0)"

text \<open>
  The reference of claim C5, after the words of the spec. The strided digit-major order
  of the slots of a block of threads: all duplicate slots of digit 0, then those of
  digit 1, and so on, the \<open>i\<close>-th duplicate of digit \<open>d\<close> being slot \<open>i * NumDigits + d\<close>. And
  the sequential exclusive prefix sum of a list of counts, as a host computes it, with
  the sum so far in \<open>acc\<close>.
\<close>

definition strided_order :: "nat \<Rightarrow> nat \<Rightarrow> nat list" where
  "strided_order NumThreads NumBits =
     concat (map (\<lambda>d. map (\<lambda>i. i * NumDigits NumBits + d) [0..<NumThreads div NumDigits NumBits])
               [0..<NumDigits NumBits])"

fun exclusive_scan :: "uint \<Rightarrow> uint list \<Rightarrow> uint list" where
  "exclusive_scan acc [] = []"
| "exclusive_scan acc (v # vs) = acc # exclusive_scan (acc + v) vs"


section \<open>Properties of the reduction policy\<close>

text \<open>
  Claim C7. Whatever the tunables, the \<open>Spine\<close> and the \<open>Single\<close> configuration get as
  their scheduling granularity, in log terms, the sum of their own log loads per tile,
  log load vector size and log thread count, so that, for non-negative logs, the
  granularity is loads per tile times vector size times threads; and both have
  work stealing switched off, whatever \<open>WORK_STEALING\<close> was requested.
\<close>

theorem policy_spine_single_granularity:
  fixes P :: "('p, 'r, 'w) Policy"
  shows "(\<forall>K \<in> {Spine P, Single P}.
           kp_LOG_SCHEDULE_GRANULARITY K =
             SPINE_LOG_LOADS_PER_TILE P + SPINE_LOG_LOAD_VEC_SIZE P + SPINE_LOG_THREADS P
         \<and> kp_LOG_SCHEDULE_GRANULARITY K =
             kp_LOG_LOADS_PER_TILE K + kp_LOG_LOAD_VEC_SIZE K + kp_LOG_THREADS K
         \<and> (0 \<le> kp_LOG_LOADS_PER_TILE K \<and> 0 \<le> kp_LOG_LOAD_VEC_SIZE K \<and> 0 \<le> kp_LOG_THREADS K
              \<longrightarrow> (2::nat) ^ nat (kp_LOG_SCHEDULE_GRANULARITY K) =
                   2 ^ nat (kp_LOG_LOADS_PER_TILE K) * 2 ^ nat (kp_LOG_LOAD_VEC_SIZE K)
                     * 2 ^ nat (kp_LOG_THREADS K))
         \<and> \<not> kp_WORK_STEALING K)"
  by (simp add: Spine_def Single_def nat_add_distrib power_add)

theorem policy_spine_single_granularity_witness:
  "kp_LOG_SCHEDULE_GRANULARITY (Spine example_policy) = 11
   \<and> (2::nat) ^ nat (kp_LOG_SCHEDULE_GRANULARITY (Single example_policy)) = 2 * 4 * 256
   \<and> WORK_STEALING example_policy
   \<and> \<not> kp_WORK_STEALING (Spine example_policy)
   \<and> \<not> kp_WORK_STEALING (Single example_policy)"
  using policy_spine_single_granularity [of example_policy]
  by (simp add: example_policy_def Spine_def Single_def)

text \<open>
  Claim C8, as stated: when the validity flag of a composed policy is false, none of the
  three accessors yields an entry point. It fails: on an architecture where no kernel
  configuration is valid, each accessor of the example policy still returns a kernel.
\<close>

theorem policy_invalid_entry_points_counterexample:
  "\<not> VALID fits_nothing example_policy
   \<and> UpsweepKernel example_policy \<noteq> None
   \<and> SpineKernel example_policy \<noteq> None
   \<and> SingleKernel example_policy \<noteq> None"
  by (simp add: VALID_def fits_nothing_def UpsweepKernel_def SpineKernel_def SingleKernel_def)

text \<open>
  Claim C8, amended: the three accessors do not consult the validity flag. For every
  composed policy, valid or not, each returns the kernel instantiated at the
  corresponding configuration; refusing an invalid policy is left to the caller, who
  can read \<open>VALID\<close>.
\<close>

theorem policy_entry_points_unconditional:
  fixes P :: "('p, 'r, 'w) Policy"
  shows "UpsweepKernel P = Some (upsweep_Kernel (Upsweep P))
       \<and> SpineKernel P = Some (spine_Kernel (Spine P))
       \<and> SingleKernel P = Some (spine_Kernel (Single P))"
  by (simp add: UpsweepKernel_def SpineKernel_def SingleKernel_def)



section \<open>Properties of the histogram scan\<close>

lemma NumDigits_pow: "NumDigits n = 2 ^ n"
  by (simp add: NumDigits_def)

lemma and_pow2m1: "(2 ^ n - 1) AND (t::nat) = t mod 2 ^ n"
proof -
  have "(2 ^ n - 1) AND t = t AND mask n"
    by (simp only: mask_eq_exp_minus_1 and.commute)
  then show ?thesis
    by (simp only: take_bit_eq_mask [symmetric] take_bit_eq_mod)
qed

lemma lane_mod: "lane tid = tid mod 32"
  using and_pow2m1 [of 5 tid] by (simp add: lane_def WARP_SIZE_def)

lemma lane2_mod: "lane2 n tid = tid mod 2 ^ n"
  by (simp only: lane2_def NumDigits_pow and_pow2m1)

lemma warp_div: "warp tid = tid div 32"
  by (simp add: warp_def WARP_SIZE_def)

lemma store_Suc:
  "store (Suc n) act addr val a =
     (if act n then (store n act addr val a)(addr n := val n) else store n act addr val a)"
  by (simp add: store_def)

lemma store_0: "store 0 act addr val a = a"
  by (simp add: store_def)

lemma store_other:
  assumes "\<And>t. t < n \<Longrightarrow> act t \<Longrightarrow> addr t \<noteq> j"
  shows "store n act addr val a j = a j"
  using assms
proof (induction n)
  case 0
  show ?case by (simp add: store_0)
next
  case (Suc n)
  have "store n act addr val a j = a j"
    by (rule Suc.IH) (simp add: Suc.prems)
  moreover have "act n \<Longrightarrow> addr n \<noteq> j"
    by (rule Suc.prems) simp
  ultimately show ?case
    by (cases "act n") (auto simp: store_Suc)
qed

lemma store_at:
  assumes "t < n" and "act t"
    and "\<And>t'. t' < n \<Longrightarrow> act t' \<Longrightarrow> addr t' = addr t \<Longrightarrow> val t' = val t"
  shows "store n act addr val a (addr t) = val t"
  using assms
proof (induction n)
  case 0
  then show ?case by simp
next
  case (Suc n)
  show ?case
  proof (cases "act n \<and> addr n = addr t")
    case True
    then have "val n = val t"
      using Suc.prems(3) [of n] by simp
    then show ?thesis using True by (simp add: store_Suc)
  next
    case False
    then have "t \<noteq> n" using Suc.prems(2) by auto
    then have tn: "t < n" using Suc.prems(1) by simp
    have "store n act addr val a (addr t) = val t"
    proof (rule Suc.IH [OF tn Suc.prems(2)])
      fix t' assume "t' < n" "act t'" "addr t' = addr t"
      then show "val t' = val t" using Suc.prems(3) [of t'] by simp
    qed
    then show ?thesis using False by (auto simp: store_Suc)
  qed
qed

lemma store_id:
  "store n (\<lambda>t. True) (\<lambda>t. t) val a j = (if j < n then val j else a j)"
proof (cases "j < n")
  case True
  then show ?thesis using store_at [of j n "\<lambda>t. True" "\<lambda>t. t" val a] by simp
next
  case False
  then show ?thesis using store_other [of n "\<lambda>t. True" "\<lambda>t. t" j val a] by simp
qed

lemma store_id_below:
  "store n (\<lambda>t. t < m) (\<lambda>t. t) val a j = (if j < n \<and> j < m then val j else a j)"
proof (cases "j < n \<and> j < m")
  case True
  then show ?thesis using store_at [of j n "\<lambda>t. t < m" "\<lambda>t. t" val a] by simp
next
  case False
  then show ?thesis using store_other [of n "\<lambda>t. t < m" "\<lambda>t. t" j val a] by auto
qed

lemma hs_sum:
  "0 < s \<Longrightarrow> hs s k v p = (\<Sum>j < min (2 ^ k) (p div s + 1). v (p - j * s))"
proof (induction k arbitrary: p)
  case 0
  then show ?case by simp
next
  case (Suc k)
  show ?case
  proof (cases "s * 2 ^ k \<le> p")
    case True
    then have q: "2 ^ k \<le> p div s"
      using Suc.prems by (simp add: less_eq_div_iff_mult_less_eq mult.commute)
    have "p = 2 ^ k * s + (p - s * 2 ^ k)"
      using True by (simp add: mult.commute)
    then have "p div s = 2 ^ k + (p - s * 2 ^ k) div s"
      using Suc.prems by (metis div_mult_self3 less_numeral_extra(3))
    then have d: "(p - s * 2 ^ k) div s = p div s - 2 ^ k"
      by simp
    let ?m = "min (2 ^ Suc k) (p div s + 1)"
    have a: "hs s k v p = (\<Sum>j < 2 ^ k. v (p - j * s))"
      using Suc.IH [OF Suc.prems, of p] q by (simp add: min_def)
    have "hs s k v (p - s * 2 ^ k)
            = (\<Sum>j < min (2 ^ k) (p div s - 2 ^ k + 1). v (p - s * 2 ^ k - j * s))"
      using Suc.IH [OF Suc.prems, of "p - s * 2 ^ k"] d by simp
    also have "\<dots> = (\<Sum>j < min (2 ^ k) (p div s - 2 ^ k + 1). v (p - (j + 2 ^ k) * s))"
      by (rule sum.cong) (simp_all add: add_mult_distrib add_mult_distrib2 mult.commute add.commute)
    also have "\<dots> = (\<Sum>j = 2 ^ k ..< min (2 ^ k) (p div s - 2 ^ k + 1) + 2 ^ k. v (p - j * s))"
      using sum.shift_bounds_nat_ivl [of "\<lambda>j. v (p - j * s)" 0 "2 ^ k" "min (2 ^ k) (p div s - 2 ^ k + 1)"]
      by (simp add: lessThan_atLeast0)
    also have "min (2 ^ k) (p div s - 2 ^ k + 1) + 2 ^ k = ?m"
    proof -
      define a :: nat where "a = 2 ^ k"
      have "a \<le> p div s" using q by (simp add: a_def)
      then have "min a (p div s - a + 1) + a = min (2 * a) (p div s + 1)" by arith
      then show ?thesis by (simp add: a_def)
    qed
    finally have b: "hs s k v (p - s * 2 ^ k) = (\<Sum>j = 2 ^ k ..< ?m. v (p - j * s))" .
    have le: "2 ^ k \<le> ?m" using q by simp
    have "(\<Sum>j < ?m. v (p - j * s))
           = (\<Sum>j = 0 ..< 2 ^ k. v (p - j * s)) + (\<Sum>j = 2 ^ k ..< ?m. v (p - j * s))"
      using sum.atLeastLessThan_concat [of 0 "2 ^ k" ?m "\<lambda>j. v (p - j * s)"] le
      by (simp add: lessThan_atLeast0)
    then show ?thesis using a b True by (simp add: lessThan_atLeast0)
  next
    case False
    then have "p div s < 2 ^ k"
      using Suc.prems by (simp add: less_mult_imp_div_less mult.commute)
    then have m: "min (2 ^ k) (p div s + 1) = p div s + 1"
      "min (2 ^ Suc k) (p div s + 1) = p div s + 1"
      by simp_all
    have "hs s (Suc k) v p = hs s k v p" using False by simp
    then show ?thesis using Suc.IH [OF Suc.prems, of p] by (simp only: m)
  qed
qed

lemma fold_upt_Suc: "fold f [0..<Suc k] s = f k (fold f [0..<k] s)"
  by simp

lemma sub_lane:
  assumes "o' \<le> t mod 32"
  shows "(t - o') mod 32 = t mod 32 - o'" and "(t - o') div 32 = t div (32::nat)"
proof -
  define q r where "q = t div 32" and "r = t mod 32"
  have t: "t = 32 * q + r" and r: "r < 32" by (simp_all add: q_def r_def)
  have o: "o' \<le> r" using assms by (simp add: r_def)
  have e: "t - o' = 32 * q + (r - o')" using t o by simp
  have r': "r - o' < 32" using r by simp
  show "(t - o') mod 32 = t mod 32 - o'"
    unfolding e using r' by (simp add: r_def)
  show "(t - o') div 32 = t div 32"
    unfolding e using r' by (simp add: q_def)
qed

lemma lane_scan_fold:
  assumes "\<forall>j<N. sh j = x j"
  shows "(\<forall>t<N. fst (fold (lane_scan_step N n) [0..<k] (x, sh)) t
                  = hs (2 ^ n) k (\<lambda>p. x (32 * (t div 32) + p)) (t mod 32))
       \<and> (\<forall>j<N. snd (fold (lane_scan_step N n) [0..<k] (x, sh)) j
                  = fst (fold (lane_scan_step N n) [0..<k] (x, sh)) j)"
proof (induction k)
  case 0
  show ?case using assms by simp
next
  case (Suc k)
  define xk where "xk = fst (fold (lane_scan_step N n) [0..<k] (x, sh))"
  define shk where "shk = snd (fold (lane_scan_step N n) [0..<k] (x, sh))"
  define x' where "x' = (\<lambda>t. if 2 ^ n * 2 ^ k \<le> t mod 32 then xk t + shk (t - 2 ^ n * 2 ^ k) else xk t)"
  have IHx: "\<And>t. t < N \<Longrightarrow> xk t = hs (2 ^ n) k (\<lambda>p. x (32 * (t div 32) + p)) (t mod 32)"
    and IHs: "\<And>j. j < N \<Longrightarrow> shk j = xk j"
    using Suc.IH by (simp_all add: xk_def shk_def)
  have step: "fold (lane_scan_step N n) [0..<Suc k] (x, sh)
                = (x', store N (\<lambda>t. True) (\<lambda>t. t) x' shk)"
    unfolding fold_upt_Suc x'_def xk_def shk_def
    by (simp add: lane_scan_step_def case_prod_beta Let_def
        NumDigits_pow lane_mod push_bit_eq_mult)
  have "x' t = hs (2 ^ n) (Suc k) (\<lambda>p. x (32 * (t div 32) + p)) (t mod 32)" if t: "t < N" for t
  proof (cases "2 ^ n * 2 ^ k \<le> t mod 32")
    case True
    let ?o = "2 ^ n * 2 ^ k :: nat"
    have lt: "t - ?o < N" using t by simp
    have "shk (t - ?o) = xk (t - ?o)" using IHs [OF lt] .
    also have "\<dots> = hs (2 ^ n) k (\<lambda>p. x (32 * (t div 32) + p)) (t mod 32 - ?o)"
      using IHx [OF lt] sub_lane [OF True] by simp
    finally show ?thesis using True IHx [OF t] by (simp add: x'_def)
  next
    case False
    then show ?thesis using IHx [OF t] by (simp add: x'_def)
  qed
  then show ?case
    unfolding step by (simp add: store_id)
qed

lemma addr33:
  assumes "r < 32"
  shows "(33 * q + r) div 33 = (q::nat)" and "(33 * q + r) mod 33 = r"
  using assms by simp_all

lemma addr33_inj:
  assumes "33 * (t' div 32) + t' mod 32 = 33 * (t div 32) + t mod (32::nat)"
  shows "t' = t"
proof -
  have a: "t' mod 32 < 32" "t mod 32 < 32" by simp_all
  have "t' div 32 = t div 32"
    using addr33(1) [OF a(1), of "t' div 32"] addr33(1) [OF a(2), of "t div 32"] assms by simp
  moreover have "t' mod 32 = t mod 32"
    using addr33(2) [OF a(1), of "t' div 32"] addr33(2) [OF a(2), of "t div 32"] assms by simp
  ultimately show ?thesis
    by (metis div_mult_mod_eq)
qed

lemma digit_scan_step_fst:
  "fst (digit_scan_step N n k (xk, shk)) t =
     (if t div 32 < 2 ^ n \<and> 2 ^ k \<le> t mod 32
      then xk t + shk (33 * (t div 32) + (t mod 32 - 2 ^ k)) else xk t)"
  by (simp add: digit_scan_step_def Let_def NumDigits_pow lane_mod warp_div WARP_SIZE_def
      push_bit_eq_mult)

lemma digit_scan_step_snd:
  "snd (digit_scan_step N n k (xk, shk)) =
     store N (\<lambda>t. t div 32 < 2 ^ n) (\<lambda>t. 33 * (t div 32) + t mod 32)
       (fst (digit_scan_step N n k (xk, shk))) shk"
  by (simp add: digit_scan_step_def Let_def NumDigits_pow lane_mod warp_div WARP_SIZE_def
      push_bit_eq_mult)

lemma digit_scan_fold:
  assumes "\<forall>t<N. t div 32 < 2 ^ n \<longrightarrow> sh (33 * (t div 32) + t mod 32) = x t"
  shows "\<forall>t<N. t div 32 < 2 ^ n \<longrightarrow>
           fst (fold (digit_scan_step N n) [0..<k] (x, sh)) t
             = hs 1 k (\<lambda>p. x (32 * (t div 32) + p)) (t mod 32)
         \<and> snd (fold (digit_scan_step N n) [0..<k] (x, sh)) (33 * (t div 32) + t mod 32)
             = fst (fold (digit_scan_step N n) [0..<k] (x, sh)) t"
proof (induction k)
  case 0
  show ?case using assms by simp
next
  case (Suc k)
  define xk where "xk = fst (fold (digit_scan_step N n) [0..<k] (x, sh))"
  define shk where "shk = snd (fold (digit_scan_step N n) [0..<k] (x, sh))"
  define x' where "x' = fst (digit_scan_step N n k (xk, shk))"
  have IHx: "\<And>t. t < N \<Longrightarrow> t div 32 < 2 ^ n \<Longrightarrow>
               xk t = hs 1 k (\<lambda>p. x (32 * (t div 32) + p)) (t mod 32)"
    and IHs: "\<And>t. t < N \<Longrightarrow> t div 32 < 2 ^ n \<Longrightarrow> shk (33 * (t div 32) + t mod 32) = xk t"
    using Suc.IH by (simp_all add: xk_def shk_def)
  have step: "fold (digit_scan_step N n) [0..<Suc k] (x, sh) = digit_scan_step N n k (xk, shk)"
    unfolding fold_upt_Suc xk_def shk_def by simp
  have x': "x' t = hs 1 (Suc k) (\<lambda>p. x (32 * (t div 32) + p)) (t mod 32)"
    if t: "t < N" and a: "t div 32 < 2 ^ n" for t
  proof (cases "2 ^ k \<le> t mod 32")
    case True
    let ?o = "2 ^ k :: nat"
    have lt: "t - ?o < N" using t by simp
    have a': "(t - ?o) div 32 < 2 ^ n" using a sub_lane(2) [OF True] by simp
    have "shk (33 * (t div 32) + (t mod 32 - ?o)) = xk (t - ?o)"
      using IHs [OF lt a'] sub_lane [OF True] by simp
    also have "\<dots> = hs 1 k (\<lambda>p. x (32 * (t div 32) + p)) (t mod 32 - ?o)"
      using IHx [OF lt a'] sub_lane [OF True] by simp
    finally show ?thesis
      using True a IHx [OF t a] by (simp add: x'_def digit_scan_step_fst)
  next
    case False
    then show ?thesis using IHx [OF t a] by (simp add: x'_def digit_scan_step_fst)
  qed
  have "store N (\<lambda>t. t div 32 < 2 ^ n) (\<lambda>t. 33 * (t div 32) + t mod 32) x' shk
          (33 * (t div 32) + t mod 32) = x' t"
    if t: "t < N" and a: "t div 32 < 2 ^ n" for t
    using t a
    by (rule store_at [where addr = "\<lambda>t. 33 * (t div 32) + t mod 32"])
      (auto dest: addr33_inj)
  then show ?case
    unfolding step digit_scan_step_snd x'_def [symmetric] using x' by simp
qed

lemma totals_scan_step_fst:
  "fst (totals_scan_step N n c k (xk, tk)) t =
     (if t < 2 ^ n
      then (if 2 ^ k \<le> t then xk t + tk (t - 2 ^ k) else xk t) - (if k = n - 1 then c t else 0)
      else xk t)"
  by (simp add: totals_scan_step_def Let_def NumDigits_pow push_bit_eq_mult)

lemma totals_scan_step_snd:
  "snd (totals_scan_step N n c k (xk, tk)) =
     store N (\<lambda>t. t < 2 ^ n) (\<lambda>t. t) (fst (totals_scan_step N n c k (xk, tk))) tk"
  by (simp add: totals_scan_step_def Let_def NumDigits_pow push_bit_eq_mult)

lemma totals_scan_fold:
  assumes "\<forall>t<N. t < 2 ^ n \<longrightarrow> tot t = x t" and "k < n"
  shows "\<forall>t<N. t < 2 ^ n \<longrightarrow>
           fst (fold (totals_scan_step N n c) [0..<k] (x, tot)) t = hs 1 k x t
         \<and> snd (fold (totals_scan_step N n c) [0..<k] (x, tot)) t
             = fst (fold (totals_scan_step N n c) [0..<k] (x, tot)) t"
  using assms(2)
proof (induction k)
  case 0
  show ?case using assms(1) by simp
next
  case (Suc k)
  define xk where "xk = fst (fold (totals_scan_step N n c) [0..<k] (x, tot))"
  define tk where "tk = snd (fold (totals_scan_step N n c) [0..<k] (x, tot))"
  define x' where "x' = fst (totals_scan_step N n c k (xk, tk))"
  have IHx: "\<And>t. t < N \<Longrightarrow> t < 2 ^ n \<Longrightarrow> xk t = hs 1 k x t"
    and IHs: "\<And>t. t < N \<Longrightarrow> t < 2 ^ n \<Longrightarrow> tk t = xk t"
    using Suc.IH Suc.prems by (simp_all add: xk_def tk_def)
  have ne: "k \<noteq> n - 1" using Suc.prems by simp
  have step: "fold (totals_scan_step N n c) [0..<Suc k] (x, tot) = totals_scan_step N n c k (xk, tk)"
    unfolding fold_upt_Suc xk_def tk_def by simp
  have x': "x' t = hs 1 (Suc k) x t" if t: "t < N" and a: "t < 2 ^ n" for t
  proof (cases "2 ^ k \<le> t")
    case True
    have "tk (t - 2 ^ k) = hs 1 k x (t - 2 ^ k)"
      using IHs [of "t - 2 ^ k"] IHx [of "t - 2 ^ k"] t a by simp
    then show ?thesis
      using True a ne IHx [OF t a] by (simp add: x'_def totals_scan_step_fst)
  next
    case False
    then show ?thesis using ne a IHx [OF t a] by (simp add: x'_def totals_scan_step_fst)
  qed
  show ?case
    unfolding step totals_scan_step_snd x'_def [symmetric] using x' by (simp add: store_id_below)
qed

lemma totals_scan_last:
  assumes "\<forall>t<N. t < 2 ^ n \<longrightarrow> tot t = x t" and "0 < n" and "t < N" and "t < 2 ^ n"
  shows "snd (fold (totals_scan_step N n c) [0..<n] (x, tot)) t = hs 1 n x t - c t"
proof -
  obtain k where n: "n = Suc k" using assms(2) by (cases n) simp_all
  define xk where "xk = fst (fold (totals_scan_step N n c) [0..<k] (x, tot))"
  define tk where "tk = snd (fold (totals_scan_step N n c) [0..<k] (x, tot))"
  define x' where "x' = fst (totals_scan_step N n c k (xk, tk))"
  have kn: "k < n" and kl: "k = n - 1" using n by simp_all
  have IHx: "\<And>t. t < N \<Longrightarrow> t < 2 ^ n \<Longrightarrow> xk t = hs 1 k x t"
    and IHs: "\<And>t. t < N \<Longrightarrow> t < 2 ^ n \<Longrightarrow> tk t = xk t"
    using totals_scan_fold [OF assms(1) kn, of c] by (simp_all add: xk_def tk_def)
  have "fold (totals_scan_step N n c) [0..<Suc k] (x, tot) = totals_scan_step N n c k (xk, tk)"
    unfolding fold_upt_Suc xk_def tk_def by simp
  then have step: "fold (totals_scan_step N n c) [0..<n] (x, tot) = totals_scan_step N n c k (xk, tk)"
    using n by simp
  have "x' t = hs 1 (Suc k) x t - c t"
  proof (cases "2 ^ k \<le> t")
    case True
    have "tk (t - 2 ^ k) = hs 1 k x (t - 2 ^ k)"
      using IHs [of "t - 2 ^ k"] IHx [of "t - 2 ^ k"] assms(3,4) by simp
    then show ?thesis
      using True assms(4) kl IHx [OF assms(3,4)] by (simp add: x'_def totals_scan_step_fst)
  next
    case False
    then show ?thesis
      using assms(4) kl IHx [OF assms(3,4)] by (simp add: x'_def totals_scan_step_fst)
  qed
  then show ?thesis
    unfolding step totals_scan_step_snd x'_def [symmetric]
    using assms(3,4) by (simp add: store_id_below n)
qed

lemma pow_split32:
  assumes "n \<le> 5"
  shows "(2::nat) ^ n * 2 ^ (5 - n) = 32"
proof -
  have "(2::nat) ^ n * 2 ^ (5 - n) = 2 ^ (n + (5 - n))" by (simp only: power_add)
  then show ?thesis using assms by simp
qed

lemma mod32_mod:
  assumes "n \<le> 5"
  shows "t mod 32 mod 2 ^ n = t mod (2::nat) ^ n"
proof -
  have "(2::nat) ^ n dvd 2 ^ n * 2 ^ (5 - n)" by (rule dvd_triv_left)
  then have "(2::nat) ^ n dvd 32" by (simp only: pow_split32 [OF assms])
  then show ?thesis by (rule mod_mod_cancel)
qed

lemma div32_div:
  assumes "n \<le> 5"
  shows "t div 2 ^ n = t div 32 * 2 ^ (5 - n) + t mod 32 div (2::nat) ^ n"
proof -
  define a where "a = t div 32"
  define D :: nat where "D = 2 ^ n"
  define E :: nat where "E = 2 ^ (5 - n)"
  have DE: "D * E = 32" using pow_split32 [OF assms] by (simp add: D_def E_def)
  have D: "0 < D" by (simp add: D_def)
  have "a * E * D = (D * E) * a" by (simp add: ac_simps)
  then have e: "a * E * D = 32 * a" by (simp only: DE)
  have "t = t mod 32 + 32 * a" by (simp add: a_def)
  then have "t = t mod 32 + a * E * D" by (simp only: e)
  then have "t div D = (t mod 32 + a * E * D) div D" by simp
  also have "\<dots> = a * E + t mod 32 div D"
    using D by simp
  finally show ?thesis by (simp add: a_def D_def E_def)
qed

lemma lane_div_less:
  assumes "n \<le> 5"
  shows "t mod 32 div 2 ^ n < (2::nat) ^ (5 - n)"
proof -
  have "t mod 32 < 2 ^ (5 - n) * 2 ^ n"
    using pow_split32 [OF assms] by (simp add: mult.commute)
  then show ?thesis by (simp add: less_mult_imp_div_less)
qed

lemma lane_scan_result:
  assumes n: "n \<le> 5" and t: "t < N" and sh: "\<forall>j<N. sh j = x j"
  shows "fst (fold (lane_scan_step N n) [0..<5 - n] (x, sh)) t
           = (\<Sum>c < t mod 32 div 2 ^ n + 1. x (32 * (t div 32) + c * 2 ^ n + t mod 2 ^ n))"
proof -
  define p where "p = t mod 32"
  define m where "m = p div 2 ^ n"
  define d where "d = t mod 2 ^ n"
  define g where "g = (\<lambda>c. x (32 * (t div 32) + c * 2 ^ n + d))"
  have "p mod 2 ^ n = d"
    using mod32_mod [OF n, of t] by (simp add: p_def d_def)
  then have pd: "p = m * 2 ^ n + d"
    unfolding m_def by (metis div_mod_decomp)
  have m: "m < 2 ^ (5 - n)" using lane_div_less [OF n, of t] by (simp add: m_def p_def)
  have mm: "min (2 ^ (5 - n)) (p div 2 ^ n + 1) = m + 1"
    using m by (simp add: m_def)
  have "fst (fold (lane_scan_step N n) [0..<5 - n] (x, sh)) t
          = hs (2 ^ n) (5 - n) (\<lambda>q. x (32 * (t div 32) + q)) p"
    using lane_scan_fold [OF sh, of n "5 - n"] t by (simp add: p_def)
  also have "\<dots> = (\<Sum>j < min (2 ^ (5 - n)) (p div 2 ^ n + 1). x (32 * (t div 32) + (p - j * 2 ^ n)))"
    by (rule hs_sum) simp
  also have "\<dots> = (\<Sum>j < m + 1. x (32 * (t div 32) + (p - j * 2 ^ n)))"
    using mm by (simp only:)
  also have "\<dots> = (\<Sum>j < m + 1. g (m + 1 - Suc j))"
  proof (rule sum.cong)
    fix j assume "j \<in> {..<m + 1}"
    then have "j \<le> m" by simp
    then have "p - j * 2 ^ n = (m - j) * 2 ^ n + d"
      by (simp add: pd diff_mult_distrib)
    then show "x (32 * (t div 32) + (p - j * 2 ^ n)) = g (m + 1 - Suc j)"
      by (simp add: g_def add.assoc)
  qed simp
  also have "\<dots> = (\<Sum>c < m + 1. g c)"
    by (rule sum.nat_diff_reindex)
  finally show ?thesis by (simp add: g_def m_def p_def d_def)
qed

lemma lane_scan_fst:
  assumes n: "n \<le> 5" and t: "t < N"
  shows "fst (lane_scan N n x sh) t
           = (\<Sum>c < t mod 32 div 2 ^ n + 1. x (32 * (t div 32) + c * 2 ^ n + t mod 2 ^ n))"
  unfolding lane_scan_def Let_def
  by (rule lane_scan_result [OF n t]) (simp add: store_id)

lemma sub_pow32:
  assumes "n \<le> 5"
  shows "32 - 2 ^ n = (2 ^ (5 - n) - 1) * (2::nat) ^ n"
proof -
  have "(2 ^ (5 - n) - 1) * (2::nat) ^ n = 2 ^ (5 - n) * 2 ^ n - 1 * 2 ^ n"
    by (rule diff_mult_distrib)
  also have "2 ^ (5 - n) * (2::nat) ^ n = 32"
    using pow_split32 [OF assms] by (simp only: mult.commute)
  finally show ?thesis by simp
qed

lemma last_run:
  assumes n: "n \<le> 5" and p: "32 - 2 ^ n \<le> p" "p < (32::nat)"
  shows "p = 32 - 2 ^ n + p mod 2 ^ n" and "p div 2 ^ n + 1 = 2 ^ (5 - n)"
proof -
  define D :: nat where "D = 2 ^ n"
  define E :: nat where "E = 2 ^ (5 - n)"
  have DE: "D * E = 32" using pow_split32 [OF n] by (simp add: D_def E_def)
  have D: "0 < D" by (simp add: D_def)
  have E: "0 < E" by (simp add: E_def)
  have DE1: "32 - D = (E - 1) * D"
    using sub_pow32 [OF n] by (simp add: D_def E_def)
  define q where "q = p - (32 - D)"
  have q: "q < D" using p D by (simp add: q_def D_def)
  have "p = q + (32 - D)" using p by (simp add: q_def D_def)
  then have pq: "p = q + (E - 1) * D" by (simp only: DE1)
  have "p mod D = q" using q by (simp add: pq)
  then show "p = 32 - 2 ^ n + p mod 2 ^ n"
    using pq DE1 by (simp add: D_def)
  have "p div D = E - 1" using q D by (simp add: pq)
  then show "p div 2 ^ n + 1 = 2 ^ (5 - n)"
    using E by (simp add: D_def E_def)
qed

lemma thread_parts:
  assumes "p < 32"
  shows "(32 * w + p) div 32 = (w::nat)" and "(32 * w + p) mod 32 = p"
  using assms by simp_all

lemma warp_totals_at:
  assumes n: "n \<le> 5" and d: "d < 2 ^ n" and w: "w < 32"
  shows "warp_totals 1024 n x sh (33 * d + w) = x (32 * w + (32 - 2 ^ n + d))"
proof -
  define t where "t = 32 * w + (32 - 2 ^ n + d)"
  have le: "(2::nat) ^ n \<le> 32" using pow_split32 [OF n]
    by (metis dvd_imp_le dvd_triv_left zero_less_numeral)
  have p: "32 - 2 ^ n + d < 32" using d le by simp
  have t32: "t div 32 = w" "t mod 32 = 32 - 2 ^ n + d"
    using thread_parts [OF p, of w] by (simp_all add: t_def)
  have "t mod 2 ^ n = (32 - 2 ^ n + d) mod 2 ^ n"
    using mod32_mod [OF n, of t] t32 by simp
  also have "\<dots> = d"
  proof -
    define D :: nat where "D = 2 ^ n"
    define E :: nat where "E = 2 ^ (5 - n)"
    have DE: "D * E = 32" using pow_split32 [OF n] by (simp add: D_def E_def)
    have E: "0 < E" by (simp add: E_def)
    have "32 - D = (E - 1) * D"
      using sub_pow32 [OF n] by (simp add: D_def E_def)
    then have "(32 - D + d) mod D = d" using d by (simp add: D_def)
    then show ?thesis by (simp add: D_def)
  qed
  finally have tD: "t mod 2 ^ n = d" .
  have tN: "t < 1024" using w p by (simp add: t_def)
  have act: "32 - 2 ^ n \<le> t mod 32" using t32 by simp
  have "store 1024 (\<lambda>t. 32 - 2 ^ n \<le> t mod 32) (\<lambda>t. 33 * (t mod 2 ^ n) + t div 32) x sh
          (33 * (t mod 2 ^ n) + t div 32) = x t"
  proof (rule store_at [where t = t and n = 1024 and act = "\<lambda>t. 32 - 2 ^ n \<le> t mod 32"
        and addr = "\<lambda>t. 33 * (t mod 2 ^ n) + t div 32" and val = x and a = sh, OF tN act])
    fix t' assume t': "t' < 1024" and a': "32 - 2 ^ n \<le> t' mod 32"
      and e: "33 * (t' mod 2 ^ n) + t' div 32 = 33 * (t mod 2 ^ n) + t div 32"
    have w': "t' div 32 < 32" using t' by simp
    have "t' mod 2 ^ n = d" "t' div 32 = w"
      using addr33 [OF w', of "t' mod 2 ^ n"] addr33 [OF w, of d] e tD t32 by simp_all
    moreover have "t' mod 32 = 32 - 2 ^ n + t' mod 32 mod 2 ^ n"
      by (rule last_run(1) [OF n a']) simp
    ultimately have "t' mod 32 = t mod 32" "t' div 32 = t div 32"
      using mod32_mod [OF n, of t'] t32 by simp_all
    then have "t' = t" by (metis div_mult_mod_eq)
    then show "x t' = x t" by simp
  qed
  then show ?thesis
    unfolding warp_totals_def
    by (simp add: tD t32 t_def [symmetric] lane_mod lane2_mod warp_div WARP_SIZE_def NumDigits_pow)
qed

lemma sum_rev_upto:
  fixes g :: "nat \<Rightarrow> uint"
  shows "(\<Sum>j<w + 1. g (w - j)) = (\<Sum>j<w + 1. g j)"
  using sum.nat_diff_reindex [of g "w + 1"] by simp

lemma hs1_sum:
  assumes "p < 2 ^ k"
  shows "hs 1 k v p = (\<Sum>j<p + 1. v (p - j))"
proof -
  have "hs 1 k v p = (\<Sum>j<min (2 ^ k) (p div 1 + 1). v (p - j * 1))"
    by (rule hs_sum) simp
  moreover have "min (2 ^ k) (p div 1 + 1) = p + 1"
    using assms by simp
  ultimately show ?thesis by simp
qed

lemma digit_scan_results:
  assumes n: "n \<le> 5" and d: "d < 2 ^ n" and w: "w < 32"
    and sh: "\<And>d w. d < 2 ^ n \<Longrightarrow> w < 32 \<Longrightarrow> sh (33 * d + w) = W d w"
  shows "fst (snd (digit_scan 1024 n x sh tot)) (33 * d + w) = (\<Sum>w'<w. W d w')"
    and "snd (snd (digit_scan 1024 n x sh tot)) d = (\<Sum>w'<32. W d w')"
proof -
  define x2 where
    "x2 = (\<lambda>tid. if warp tid < NumDigits n then sh ((WARP_SIZE + 1) * warp tid + lane tid) else x tid)"
  define f where "f = fold (digit_scan_step 1024 n) [0..<LOG_WARP_SIZE] (x2, sh)"
  have unf: "digit_scan 1024 n x sh tot =
      (fst f,
       store 1024 (\<lambda>tid. warp tid < NumDigits n) (\<lambda>tid. (WARP_SIZE + 1) * warp tid + lane tid)
         (\<lambda>tid. fst f tid - x2 tid) (snd f),
       store 1024 (\<lambda>tid. warp tid < NumDigits n \<and> WARP_SIZE - 1 = lane tid) warp (fst f) tot)"
    unfolding digit_scan_def Let_def case_prod_beta f_def x2_def by (rule refl)
  have le: "(2::nat) ^ n \<le> 32" using pow_split32 [OF n]
    by (metis dvd_imp_le dvd_triv_left zero_less_numeral)
  have x2: "x2 (32 * d + v) = W d v" if "v < 32" for v
    using that d sh [OF d that]
    by (simp add: x2_def warp_div lane_mod WARP_SIZE_def NumDigits_pow)
  have x2t: "\<forall>t<1024. t div 32 < 2 ^ n \<longrightarrow> sh (33 * (t div 32) + t mod 32) = x2 t"
    by (simp add: x2_def warp_div lane_mod WARP_SIZE_def NumDigits_pow)
  have inv: "fst f (32 * d + v) = hs 1 5 (\<lambda>p. x2 (32 * d + p)) v
             \<and> snd f (33 * d + v) = fst f (32 * d + v)" if v: "v < 32" for v
  proof -
    have lt: "32 * d + v < 1024" using d le v by simp
    have tp: "(32 * d + v) div 32 = d" "(32 * d + v) mod 32 = v"
      using thread_parts [OF v, of d] by simp_all
    have a: "(32 * d + v) div 32 < 2 ^ n" using d by (simp only: tp)
    show ?thesis
      using digit_scan_fold [OF x2t, of 5, rule_format, OF lt a]
      by (simp only: tp f_def LOG_WARP_SIZE_def)
  qed
  have fstf: "fst f (32 * d + v) = (\<Sum>w'<v + 1. W d w')" if v: "v < 32" for v
  proof -
    have "fst f (32 * d + v) = hs 1 5 (\<lambda>p. x2 (32 * d + p)) v"
      using inv [OF v] by (rule conjunct1)
    also have "\<dots> = (\<Sum>j<v + 1. x2 (32 * d + (v - j)))"
      by (rule hs1_sum) (use v in simp)
    also have "\<dots> = (\<Sum>j<v + 1. W d (v - j))"
    proof (rule sum.cong)
      fix j assume "j \<in> {..<v + 1}"
      have "v - j < 32" using v by simp
      then show "x2 (32 * d + (v - j)) = W d (v - j)" by (rule x2)
    qed simp
    finally show ?thesis by (simp only: sum_rev_upto)
  qed
  define t where "t = 32 * d + w"
  have tN: "t < 1024" using d le w by (simp add: t_def)
  have tp: "t div 32 = d" "t mod 32 = w"
    using thread_parts [OF w, of d] by (simp_all add: t_def)
  have "store 1024 (\<lambda>t. t div 32 < 2 ^ n) (\<lambda>t. 33 * (t div 32) + t mod 32)
          (\<lambda>tid. fst f tid - x2 tid) (snd f) (33 * (t div 32) + t mod 32) = fst f t - x2 t"
    by (rule store_at [where t = t and n = 1024 and act = "\<lambda>t. t div 32 < 2 ^ n"
          and addr = "\<lambda>t. 33 * (t div 32) + t mod 32" and val = "\<lambda>tid. fst f tid - x2 tid"])
      (use tN tp d in \<open>auto dest: addr33_inj\<close>)
  then have "fst (snd (digit_scan 1024 n x sh tot)) (33 * d + w) = fst f t - x2 t"
    unfolding unf by (simp add: tp warp_div lane_mod WARP_SIZE_def NumDigits_pow)
  also have "\<dots> = (\<Sum>w'<w + 1. W d w') - W d w"
    using fstf [OF w] x2 [OF w] by (simp add: t_def)
  finally show "fst (snd (digit_scan 1024 n x sh tot)) (33 * d + w) = (\<Sum>w'<w. W d w')"
    by simp
  define u where "u = 32 * d + 31"
  have uN: "u < 1024" using d le by (simp add: u_def)
  have up: "u div 32 = d" "u mod 32 = 31"
    using thread_parts [of 31 d] by (simp_all add: u_def)
  have "store 1024 (\<lambda>t. t div 32 < 2 ^ n \<and> 31 = t mod 32) (\<lambda>t. t div 32) (fst f) tot (u div 32)
          = fst f u"
  proof (rule store_at [where t = u and n = 1024 and act = "\<lambda>t. t div 32 < 2 ^ n \<and> 31 = t mod 32"
          and addr = "\<lambda>t. t div 32" and val = "fst f" and a = tot])
    show "u < 1024" by (rule uN)
    show "u div 32 < 2 ^ n \<and> 31 = u mod 32" using up d by simp
    fix t' assume "t' < 1024" "t' div 32 < 2 ^ n \<and> 31 = t' mod 32" "t' div 32 = u div 32"
    then have "t' div 32 = u div 32" "t' mod 32 = u mod 32" using up by simp_all
    then have "t' = u" by (metis div_mult_mod_eq)
    then show "fst f t' = fst f u" by simp
  qed
  then have "snd (snd (digit_scan 1024 n x sh tot)) d = fst f u"
    unfolding unf by (simp add: up warp_div [abs_def] lane_mod WARP_SIZE_def NumDigits_pow)
  then show "snd (snd (digit_scan 1024 n x sh tot)) d = (\<Sum>w'<32. W d w')"
    using fstf [of 31] by (simp add: u_def)
qed

lemma totals_scan_result:
  assumes n: "0 < n" and N: "2 ^ n \<le> N" and d: "d < 2 ^ n"
  shows "snd (totals_scan N n x tot) d = (\<Sum>d'<d. tot d')"
proof -
  define x4 where "x4 = (\<lambda>tid. if tid < NumDigits n then tot tid else x tid)"
  have unf: "totals_scan N n x tot = fold (totals_scan_step N n x4) [0..<n] (x4, tot)"
    unfolding totals_scan_def Let_def x4_def by (rule refl)
  have pre: "\<forall>t<N. t < 2 ^ n \<longrightarrow> tot t = x4 t"
    by (simp add: x4_def NumDigits_pow)
  have dN: "d < N" using d N by simp
  have x4: "x4 j = tot j" if "j \<le> d" for j
    using that d by (simp add: x4_def NumDigits_pow)
  have "snd (totals_scan N n x tot) d = hs 1 n x4 d - x4 d"
    unfolding unf by (rule totals_scan_last [OF pre n dN d])
  also have "hs 1 n x4 d = (\<Sum>j<d + 1. x4 (d - j))"
    by (rule hs1_sum [OF d])
  also have "\<dots> = (\<Sum>j<d + 1. tot (d - j))"
    by (rule sum.cong) (simp_all add: x4)
  also have "\<dots> = (\<Sum>j<d + 1. tot j)"
    by (rule sum_rev_upto)
  finally show ?thesis by (simp add: x4)
qed

lemma sum_split:
  fixes g :: "nat \<Rightarrow> uint"
  shows "(\<Sum>c<a + m. g c) = (\<Sum>c<a. g c) + (\<Sum>c<m. g (a + c))"
  by (induction m) (simp_all add: add.assoc)

lemma sum_group:
  fixes g :: "nat \<Rightarrow> uint"
  shows "(\<Sum>w<k. \<Sum>c<E. g (w * E + c)) = (\<Sum>c<k * E. g c)"
proof (induction k)
  case 0
  show ?case by simp
next
  case (Suc k)
  have "(\<Sum>c<Suc k * E. g c) = (\<Sum>c<k * E + E. g c)" by (simp add: add.commute)
  also have "\<dots> = (\<Sum>c<k * E. g c) + (\<Sum>c<E. g (k * E + c))" by (rule sum_split)
  finally show ?case using Suc.IH by simp
qed

lemma div1024:
  assumes "n \<le> 5"
  shows "1024 div 2 ^ n = 32 * (2::nat) ^ (5 - n)"
proof -
  define D :: nat where "D = 2 ^ n"
  define E :: nat where "E = 2 ^ (5 - n)"
  have DE: "D * E = 32" using pow_split32 [OF assms] by (simp add: D_def E_def)
  have D: "0 < D" by (simp add: D_def)
  have "32 * E * D = 32 * (D * E)" by (simp only: ac_simps)
  also have "\<dots> = 1024" by (simp only: DE)
  finally have k: "32 * E * D = 1024" .
  have "1024 div D = 32 * E * D div D" by (simp only: k)
  also have "\<dots> = 32 * E" using D by simp
  finally show ?thesis by (simp only: D_def E_def)
qed

lemma digit_total_warps:
  assumes n: "n \<le> 5"
  shows "digit_total (2 ^ n) (1024 div 2 ^ n) x d
           = (\<Sum>w<32. \<Sum>c<2 ^ (5 - n). x (32 * w + c * 2 ^ n + d))"
proof -
  define D :: nat where "D = 2 ^ n"
  define E :: nat where "E = 2 ^ (5 - n)"
  have DE: "E * D = 32" using pow_split32 [OF n] by (simp add: D_def E_def mult.commute)
  have e: "(w * E + c) * D = 32 * w + c * D" for w c
  proof -
    have "(w * E + c) * D = w * (E * D) + c * D" by (simp only: add_mult_distrib mult.assoc)
    then show ?thesis by (simp only: DE mult.commute [of w 32])
  qed
  have "digit_total D (32 * E) x d = (\<Sum>c<32 * E. x (c * D + d))"
    by (simp add: digit_total_def)
  also have "\<dots> = (\<Sum>w<32. \<Sum>c<E. x ((w * E + c) * D + d))"
    by (rule sum_group [symmetric])
  finally have "digit_total D (32 * E) x d = (\<Sum>w<32. \<Sum>c<E. x (32 * w + c * D + d))"
    by (simp only: e)
  moreover have "1024 div D = 32 * E"
    using div1024 [OF n] by (simp only: D_def E_def)
  ultimately show ?thesis
    by (simp only: D_def E_def)
qed

lemma StridedMultiScan_parallel_unfold:
  "StridedMultiScan_parallel N n x sh tot =
     (let f1 = lane_scan N n x sh;
          sh2 = warp_totals N n (fst f1) (snd f1);
          f3 = digit_scan N n (fst f1) sh2 tot;
          f5 = totals_scan N n (fst f3) (snd (snd f3))
      in (\<lambda>tid. snd f5 (lane2 n tid) + fst (snd f3) (lane2 n tid * (WARP_SIZE + 1) + warp tid)
                  + (fst f1 tid - x tid),
          fst (snd f3), snd f5))"
  unfolding StridedMultiScan_parallel_def Let_def case_prod_beta by (rule refl)

lemma parallel_pieces:
  assumes n1: "0 < n" and n4: "n \<le> 4"
  shows "\<And>t. t < 1024 \<Longrightarrow>
           fst (StridedMultiScan_parallel 1024 n x sh tot) t
             = (\<Sum>d'<t mod 2 ^ n. \<Sum>w'<32. warp_total n x d' w') + (\<Sum>w'<t div 32. warp_total n x (t mod 2 ^ n) w')
               + (\<Sum>c<t mod 32 div 2 ^ n. x (32 * (t div 32) + c * 2 ^ n + t mod 2 ^ n))"
    and "\<And>d. d < 2 ^ n \<Longrightarrow>
           snd (snd (StridedMultiScan_parallel 1024 n x sh tot)) d = (\<Sum>d'<d. \<Sum>w'<32. warp_total n x d' w')"
proof -
  define W where "W = warp_total n x"
  have n: "n \<le> 5" using n4 by simp
  define f1 where "f1 = lane_scan 1024 n x sh"
  define sh2 where "sh2 = warp_totals 1024 n (fst f1) (snd f1)"
  define f3 where "f3 = digit_scan 1024 n (fst f1) sh2 tot"
  define f5 where "f5 = totals_scan 1024 n (fst f3) (snd (snd f3))"
  have unf: "StridedMultiScan_parallel 1024 n x sh tot =
      (\<lambda>tid. snd f5 (lane2 n tid) + fst (snd f3) (lane2 n tid * (WARP_SIZE + 1) + warp tid)
                  + (fst f1 tid - x tid),
       fst (snd f3), snd f5)"
    unfolding StridedMultiScan_parallel_unfold Let_def f5_def f3_def sh2_def f1_def by (rule refl)
  have le: "(2::nat) ^ n \<le> 32" using pow_split32 [OF n]
    by (metis dvd_imp_le dvd_triv_left zero_less_numeral)
  have x1: "fst f1 u = (\<Sum>c < u mod 32 div 2 ^ n + 1. x (32 * (u div 32) + c * 2 ^ n + u mod 2 ^ n))"
    if "u < 1024" for u
    unfolding f1_def by (rule lane_scan_fst [OF n that])
  have sh2: "sh2 (33 * d + w) = W d w" if d: "d < 2 ^ n" and w: "w < 32" for d w
  proof -
    define u where "u = 32 * w + (32 - 2 ^ n + d)"
    have p: "32 - 2 ^ n + d < 32" using d le by simp
    have a: "32 - 2 ^ n \<le> 32 - 2 ^ n + d" by simp
    have u32: "u div 32 = w" "u mod 32 = 32 - 2 ^ n + d"
      using thread_parts [OF p, of w] by (simp_all add: u_def)
    have uN: "u < 1024" using w p by (simp add: u_def)
    have "(32 - 2 ^ n + d) mod 2 ^ n = d"
    proof -
      have "(32 - 2 ^ n + d) mod 2 ^ n = ((2 ^ (5 - n) - 1) * 2 ^ n + d) mod 2 ^ n"
        by (simp only: sub_pow32 [OF n])
      then show ?thesis using d by simp
    qed
    then have uD: "u mod 2 ^ n = d"
      using mod32_mod [OF n, of u] u32 by simp
    have uE: "(32 - 2 ^ n + d) div 2 ^ n + 1 = 2 ^ (5 - n)"
      by (rule last_run(2) [OF n a p])
    have "sh2 (33 * d + w) = fst f1 u"
      unfolding sh2_def u_def by (rule warp_totals_at [OF n d w])
    also have "\<dots> = W d w"
      unfolding x1 [OF uN] W_def warp_total_def by (simp only: uE uD u32)
    finally show ?thesis .
  qed
  have sh4: "fst (snd f3) (33 * d + w) = (\<Sum>w'<w. W d w')"
    and tot3: "snd (snd f3) d = (\<Sum>w'<32. W d w')" if d: "d < 2 ^ n" and w: "w < 32" for d w
    unfolding f3_def
    by (rule digit_scan_results [OF n d w, where W = W], rule sh2, assumption, assumption)+
  have N: "(2::nat) ^ n \<le> 1024" using le by simp
  have tot5: "snd f5 d = (\<Sum>d'<d. \<Sum>w'<32. W d' w')" if d: "d < 2 ^ n" for d
  proof -
    have "snd f5 d = (\<Sum>d'<d. snd (snd f3) d')"
      unfolding f5_def by (rule totals_scan_result [OF n1 N d])
    also have "\<dots> = (\<Sum>d'<d. \<Sum>w'<32. W d' w')"
    proof (rule sum.cong)
      fix d' assume "d' \<in> {..<d}"
      then have dd: "d' < 2 ^ n" using d by simp
      show "snd (snd f3) d' = (\<Sum>w'<32. W d' w')"
        using tot3 [OF dd, of 0] by simp
    qed simp
    finally show ?thesis .
  qed
  show "snd (snd (StridedMultiScan_parallel 1024 n x sh tot)) d
          = (\<Sum>d'<d. \<Sum>w'<32. warp_total n x d' w')"
    if "d < 2 ^ n" for d
    unfolding unf using tot5 [OF that] by (simp add: W_def)
  show "fst (StridedMultiScan_parallel 1024 n x sh tot) t
          = (\<Sum>d'<t mod 2 ^ n. \<Sum>w'<32. warp_total n x d' w')
            + (\<Sum>w'<t div 32. warp_total n x (t mod 2 ^ n) w')
            + (\<Sum>c<t mod 32 div 2 ^ n. x (32 * (t div 32) + c * 2 ^ n + t mod 2 ^ n))"
    if t: "t < 1024" for t
  proof -
    define d where "d = t mod 2 ^ n"
    define w where "w = t div 32"
    define m where "m = t mod 32 div 2 ^ n"
    have d: "d < 2 ^ n" by (simp add: d_def)
    have w: "w < 32" using t by (simp add: w_def)
    have "t mod 32 = m * 2 ^ n + t mod 32 mod 2 ^ n"
      unfolding m_def by (metis div_mod_decomp)
    then have "t mod 32 = m * 2 ^ n + d"
      using mod32_mod [OF n, of t] by (simp add: d_def)
    then have "32 * w + (m * 2 ^ n + d) = 32 * (t div 32) + t mod 32"
      by (simp only: w_def)
    then have tt: "32 * w + m * 2 ^ n + d = t"
      by (simp add: add.assoc)
    have "fst f1 t - x t = (\<Sum>c<m + 1. x (32 * w + c * 2 ^ n + d)) - x t"
      unfolding x1 [OF t] by (simp only: d_def w_def m_def)
    also have "\<dots> = (\<Sum>c<m. x (32 * w + c * 2 ^ n + d))"
      by (simp add: tt)
    finally have lx: "fst f1 t - x t = (\<Sum>c<m. x (32 * w + c * 2 ^ n + d))" .
    have "fst (StridedMultiScan_parallel 1024 n x sh tot) t
            = snd f5 d + fst (snd f3) (33 * d + w) + (fst f1 t - x t)"
      unfolding unf by (simp add: lane2_mod warp_div WARP_SIZE_def d_def w_def mult.commute)
    then show ?thesis
      unfolding tot5 [OF d] sh4 [OF d w] lx by (simp only: d_def w_def m_def W_def)
  qed
qed

lemma regroup32:
  assumes "n \<le> 5"
  shows "(w * 2 ^ (5 - n) + c) * 2 ^ n = 32 * w + c * (2::nat) ^ n"
proof -
  have "(w * 2 ^ (5 - n) + c) * 2 ^ n = w * (2 ^ n * 2 ^ (5 - n)) + c * (2::nat) ^ n"
    by (simp only: add_mult_distrib mult.assoc mult.commute [of "2 ^ (5 - n)" "2 ^ n"])
  then show ?thesis
    by (simp only: pow_split32 [OF assms] mult.commute [of w 32])
qed

lemma digit_total_warp_total:
  assumes "n \<le> 5"
  shows "digit_total (2 ^ n) (1024 div 2 ^ n) x d = (\<Sum>w<32. warp_total n x d w)"
  unfolding warp_total_def by (rule digit_total_warps [OF assms])

lemma column_prefix:
  assumes n: "n \<le> 5"
  shows "(\<Sum>c<t div 2 ^ n. x (c * 2 ^ n + d))
           = (\<Sum>w'<t div 32. warp_total n x d w')
             + (\<Sum>c<t mod 32 div 2 ^ n. x (32 * (t div 32) + c * 2 ^ n + d))"
proof -
  define E :: nat where "E = 2 ^ (5 - n)"
  define w where "w = t div 32"
  define m where "m = t mod 32 div 2 ^ n"
  define g where "g = (\<lambda>c. x (c * 2 ^ n + d))"
  have e: "g (w' * E + c) = x (32 * w' + c * 2 ^ n + d)" for w' c
    unfolding g_def E_def by (simp only: regroup32 [OF n])
  have "t div 2 ^ n = w * E + m"
    using div32_div [OF n, of t] by (simp only: w_def E_def m_def)
  then have "(\<Sum>c<t div 2 ^ n. g c) = (\<Sum>c<w * E + m. g c)" by simp
  also have "\<dots> = (\<Sum>c<w * E. g c) + (\<Sum>c<m. g (w * E + c))" by (rule sum_split)
  also have "(\<Sum>c<w * E. g c) = (\<Sum>w'<w. \<Sum>c<E. g (w' * E + c))" by (rule sum_group [symmetric])
  finally have "(\<Sum>c<t div 2 ^ n. g c)
      = (\<Sum>w'<w. \<Sum>c<E. x (32 * w' + c * 2 ^ n + d)) + (\<Sum>c<m. x (32 * w + c * 2 ^ n + d))"
    by (simp only: e)
  then show ?thesis
    by (simp only: g_def warp_total_def E_def w_def m_def)
qed

lemma StridedMultiScan_parallel_correct:
  assumes n1: "0 < n" and n4: "n \<le> 4"
  shows "\<And>t. t < 1024 \<Longrightarrow>
           fst (StridedMultiScan_parallel 1024 n x sh tot) t
             = strided_exclusive (2 ^ n) (1024 div 2 ^ n) x t"
    and "\<And>d. d < 2 ^ n \<Longrightarrow>
           snd (snd (StridedMultiScan_parallel 1024 n x sh tot)) d
             = (\<Sum>d'<d. digit_total (2 ^ n) (1024 div 2 ^ n) x d')"
proof -
  have n: "n \<le> 5" using n4 by simp
  show "fst (StridedMultiScan_parallel 1024 n x sh tot) t
          = strided_exclusive (2 ^ n) (1024 div 2 ^ n) x t" if "t < 1024" for t
    unfolding parallel_pieces(1) [OF n1 n4 that] strided_exclusive_def
      digit_total_warp_total [OF n] column_prefix [OF n]
    by (simp only: add.assoc)
  show "snd (snd (StridedMultiScan_parallel 1024 n x sh tot)) d
          = (\<Sum>d'<d. digit_total (2 ^ n) (1024 div 2 ^ n) x d')" if "d < 2 ^ n" for d
    unfolding parallel_pieces(2) [OF n1 n4 that] digit_total_warp_total [OF n]
    by (rule refl)
qed

lemma duplicate_scan_step_fst:
  "fst (duplicate_scan_step N n i (x, sh)) t =
     (if t < 2 ^ n then x t + sh (i * 2 ^ n + t) else x t)"
  by (simp add: duplicate_scan_step_def Let_def NumDigits_pow)

lemma duplicate_scan_step_snd:
  "snd (duplicate_scan_step N n i (x, sh)) =
     store N (\<lambda>t. t < 2 ^ n) (\<lambda>t. i * 2 ^ n + t) x sh"
  by (simp add: duplicate_scan_step_def Let_def NumDigits_pow)

lemma store_column:
  assumes N: "D \<le> N" and D: "0 < D"
  shows "store N (\<lambda>t. t < D) (\<lambda>t. i * D + t) x sh j =
           (if i * D \<le> j \<and> j < i * D + D then x (j - i * D) else sh j)"
proof (cases "i * D \<le> j \<and> j < i * D + D")
  case True
  define t where "t = j - i * D"
  have t: "t < D" "j = i * D + t" using True unfolding t_def by linarith+
  have "store N (\<lambda>t. t < D) (\<lambda>t. i * D + t) x sh (i * D + t) = x t"
    by (rule store_at [where t = t and n = N and act = "\<lambda>t. t < D" and addr = "\<lambda>t. i * D + t"
          and val = x]) (use t N in auto)
  then show ?thesis using True t by simp
next
  case False
  have "store N (\<lambda>t. t < D) (\<lambda>t. i * D + t) x sh j = sh j"
    by (rule store_other) (use False in auto)
  then show ?thesis by (simp only: False if_False)
qed

lemma duplicate_scan_fold:
  assumes N: "2 ^ n \<le> N" and x0: "\<forall>t<2 ^ n. x t = 0"
  shows "(\<forall>t<2 ^ n. fst (fold (duplicate_scan_step N n) [0..<k] (x, sh)) t
                      = (\<Sum>i<k. sh (i * 2 ^ n + t)))
       \<and> (\<forall>j. snd (fold (duplicate_scan_step N n) [0..<k] (x, sh)) j
                = (if j < k * 2 ^ n then (\<Sum>i<j div 2 ^ n. sh (i * 2 ^ n + j mod 2 ^ n)) else sh j))"
proof (induction k)
  case 0
  show ?case using x0 by simp
next
  case (Suc k)
  define D :: nat where "D = 2 ^ n"
  define xk where "xk = fst (fold (duplicate_scan_step N n) [0..<k] (x, sh))"
  define shk where "shk = snd (fold (duplicate_scan_step N n) [0..<k] (x, sh))"
  have D: "0 < D" by (simp add: D_def)
  have IHx: "\<And>t. t < D \<Longrightarrow> xk t = (\<Sum>i<k. sh (i * D + t))"
    and IHs: "\<And>j. shk j = (if j < k * D then (\<Sum>i<j div D. sh (i * D + j mod D)) else sh j)"
    using Suc.IH by (simp_all add: xk_def shk_def D_def)
  have step: "fold (duplicate_scan_step N n) [0..<Suc k] (x, sh) = duplicate_scan_step N n k (xk, shk)"
    unfolding fold_upt_Suc xk_def shk_def by simp
  have a: "fst (duplicate_scan_step N n k (xk, shk)) t = (\<Sum>i<Suc k. sh (i * D + t))"
    if t: "t < D" for t
    using t IHx [OF t] IHs [of "k * D + t"]
    by (simp add: duplicate_scan_step_fst D_def [symmetric])
  have b: "snd (duplicate_scan_step N n k (xk, shk)) j
             = (if j < Suc k * D then (\<Sum>i<j div D. sh (i * D + j mod D)) else sh j)" for j
  proof (cases "k * D \<le> j \<and> j < k * D + D")
    case True
    define t where "t = j - k * D"
    have t: "t < D" "j = t + k * D" using True unfolding t_def by linarith+
    have "j div D = k" "j mod D = t" using t D by simp_all
    then show ?thesis
      using True t(1) IHx [OF t(1)] N
      by (simp add: duplicate_scan_step_snd D_def [symmetric] store_column t_def [symmetric])
  next
    case False
    then show ?thesis
      using IHs [of j] N D
      by (auto simp add: duplicate_scan_step_snd D_def [symmetric] store_column)
  qed
  show ?case
    unfolding step using a b by (simp add: D_def)
qed

lemma pad_inj: "t' + t' div 32 = d + d div (32::nat) \<Longrightarrow> t' = d"
  by arith

lemma duplicate_scan_results:
  assumes N: "2 ^ n \<le> N"
  shows "\<And>j. j < N div 2 ^ n * 2 ^ n \<Longrightarrow>
           fst (snd (duplicate_scan N n x sh tot)) j
             = (\<Sum>i<j div 2 ^ n. sh (i * 2 ^ n + j mod 2 ^ n))"
    and "\<And>d. d < 2 ^ n \<Longrightarrow>
           snd (snd (duplicate_scan N n x sh tot)) (d + d div 32)
             = (\<Sum>i<N div 2 ^ n. sh (i * 2 ^ n + d))"
proof -
  define x0 where "x0 = (\<lambda>tid. if tid < NumDigits n then 0 else x tid)"
  define f where "f = fold (duplicate_scan_step N n) [0..<N div NumDigits n] (x0, sh)"
  have unf: "duplicate_scan N n x sh tot =
      (fst f, snd f,
       store N (\<lambda>tid. tid < NumDigits n) (\<lambda>tid. tid + tid div WARP_SIZE) (fst f) tot)"
    unfolding duplicate_scan_def Let_def case_prod_beta f_def x0_def by (rule refl)
  have x0: "\<forall>t<2 ^ n. x0 t = 0" by (simp add: x0_def NumDigits_pow)
  note inv = duplicate_scan_fold [OF N x0, where sh = sh and k = "N div 2 ^ n"]
  show "fst (snd (duplicate_scan N n x sh tot)) j
          = (\<Sum>i<j div 2 ^ n. sh (i * 2 ^ n + j mod 2 ^ n))" if "j < N div 2 ^ n * 2 ^ n" for j
    unfolding unf using inv that by (simp add: f_def NumDigits_pow)
  show "snd (snd (duplicate_scan N n x sh tot)) (d + d div 32)
          = (\<Sum>i<N div 2 ^ n. sh (i * 2 ^ n + d))" if d: "d < 2 ^ n" for d
  proof -
    have dN: "d < N" using d N by simp
    have "store N (\<lambda>tid. tid < 2 ^ n) (\<lambda>tid. tid + tid div 32) (fst f) tot (d + d div 32)
            = fst f d"
      by (rule store_at [where t = d and n = N and act = "\<lambda>tid. tid < 2 ^ n"
            and addr = "\<lambda>tid. tid + tid div 32" and val = "fst f"])
        (use d dN in \<open>auto dest: pad_inj\<close>)
    then show ?thesis
      unfolding unf using inv d by (simp add: f_def NumDigits_pow WARP_SIZE_def)
  qed
qed

lemma pair_sum:
  fixes g :: "nat \<Rightarrow> uint"
  shows "(\<Sum>t'<t. g (2 * t') + g (2 * t' + 1)) = (\<Sum>k<2 * t. g k)"
  by (induction t) (simp_all add: add.assoc)

lemma sum4:
  fixes h :: "nat \<Rightarrow> uint"
  shows "(\<Sum>c<4. h c) = h 0 + h 1 + h 2 + h 3"
  by (simp add: eval_nat_numeral add.assoc)

lemma quad_sum:
  fixes g :: "nat \<Rightarrow> uint"
  shows "(\<Sum>t'<t. g (4 * t') + g (4 * t' + 1) + g (4 * t' + 2) + g (4 * t' + 3)) = (\<Sum>k<4 * t. g k)"
proof (induction t)
  case 0
  show ?case by simp
next
  case (Suc t)
  have "(\<Sum>k<4 * Suc t. g k) = (\<Sum>k<4 * t + 4. g k)" by (simp add: add.commute)
  also have "\<dots> = (\<Sum>k<4 * t. g k) + (\<Sum>c<4. g (4 * t + c))" by (rule sum_split)
  also have "(\<Sum>c<4. g (4 * t + c)) = g (4 * t + 0) + g (4 * t + 1) + g (4 * t + 2) + g (4 * t + 3)"
    by (rule sum4)
  finally show ?case using Suc by simp
qed

lemma pad2: "r < 2 \<Longrightarrow> (2 * t + r) div 32 = 2 * t div (32::nat)"
proof -
  assume r: "r < 2"
  have m: "2 * t mod 32 = 2 * (t mod 16)"
    using mult_mod_right [of 2 t 16] by simp
  have "t mod 16 < 16" by simp
  then have "2 * t mod 32 + r < 32" using r unfolding m by linarith
  then have "(2 * t mod 32 + r mod 32) div 32 = 0" using r by simp
  moreover have "r div 32 = 0" using r by simp
  ultimately show ?thesis
    using div_add1_eq [of "2 * t" r 32] by simp
qed

lemma pad4: "r < 4 \<Longrightarrow> (4 * t + r) div 32 = 4 * t div (32::nat)"
proof -
  assume r: "r < 4"
  have m: "4 * t mod 32 = 4 * (t mod 8)"
    using mult_mod_right [of 4 t 8] by simp
  have "t mod 8 < 8" by simp
  then have "4 * t mod 32 + r < 32" using r unfolding m by linarith
  then have "(4 * t mod 32 + r mod 32) div 32 = 0" using r by simp
  moreover have "r div 32 = 0" using r by simp
  ultimately show ?thesis
    using div_add1_eq [of "4 * t" r 32] by simp
qed

lemma pad2_inj:
  assumes "2 * t' + 2 * t' div 32 + r = 2 * t + 2 * t div 32 + r'" and "r < 2" and "r' < (2::nat)"
  shows "t' = t \<and> r = r'"
proof -
  have "(2 * t' + r) + (2 * t' + r) div 32 = (2 * t + r') + (2 * t + r') div 32"
    using assms by (simp only: pad2)
  then have "2 * t' + r = 2 * t + r'" by (rule pad_inj)
  then have "(2 * t' + r) div 2 = (2 * t + r') div 2" "(2 * t' + r) mod 2 = (2 * t + r') mod 2"
    by simp_all
  then show ?thesis using assms(2,3) by simp
qed

lemma pad4_inj:
  assumes "4 * t' + 4 * t' div 32 + r = 4 * t + 4 * t div 32 + r'" and "r < 4" and "r' < (4::nat)"
  shows "t' = t \<and> r = r'"
proof -
  have "(4 * t' + r) + (4 * t' + r) div 32 = (4 * t + r') + (4 * t + r') div 32"
    using assms by (simp only: pad4)
  then have "4 * t' + r = 4 * t + r'" by (rule pad_inj)
  then have "(4 * t' + r) div 4 = (4 * t + r') div 4" "(4 * t' + r) mod 4 = (4 * t + r') mod 4"
    by simp_all
  then show ?thesis using assms(2,3) by simp
qed

lemma store_pad2:
  assumes N: "32 \<le> N" and r: "r < 2" "r' < 2" and t: "t < 32"
  shows "store N (\<lambda>tid. tid < 32) (\<lambda>tid. 2 * tid + 2 * tid div 32 + r) val a
           (2 * t + 2 * t div 32 + r')
         = (if r' = r then val t else a (2 * t + 2 * t div 32 + r'))"
proof (cases "r' = r")
  case True
  have "store N (\<lambda>tid. tid < 32) (\<lambda>tid. 2 * tid + 2 * tid div 32 + r) val a
          (2 * t + 2 * t div 32 + r) = val t"
  proof (rule store_at [where t = t and n = N and act = "\<lambda>tid. tid < 32"
        and addr = "\<lambda>tid. 2 * tid + 2 * tid div 32 + r" and val = val])
    show "t < N" using t N by simp
    show "t < 32" by (rule t)
    fix t' assume "2 * t' + 2 * t' div 32 + r = 2 * t + 2 * t div 32 + r"
    then have "t' = t" using pad2_inj r(1) by blast
    then show "val t' = val t" by simp
  qed
  then show ?thesis using True by simp
next
  case False
  have "store N (\<lambda>tid. tid < 32) (\<lambda>tid. 2 * tid + 2 * tid div 32 + r) val a
          (2 * t + 2 * t div 32 + r') = a (2 * t + 2 * t div 32 + r')"
  proof (rule store_other)
    fix t' show "2 * t' + 2 * t' div 32 + r \<noteq> 2 * t + 2 * t div 32 + r'"
      using False r pad2_inj by blast
  qed
  then show ?thesis using False by simp
qed

lemma store_pad4:
  assumes N: "32 \<le> N" and r: "r < 4" "r' < 4" and t: "t < 32"
  shows "store N (\<lambda>tid. tid < 32) (\<lambda>tid. 4 * tid + 4 * tid div 32 + r) val a
           (4 * t + 4 * t div 32 + r')
         = (if r' = r then val t else a (4 * t + 4 * t div 32 + r'))"
proof (cases "r' = r")
  case True
  have "store N (\<lambda>tid. tid < 32) (\<lambda>tid. 4 * tid + 4 * tid div 32 + r) val a
          (4 * t + 4 * t div 32 + r) = val t"
  proof (rule store_at [where t = t and n = N and act = "\<lambda>tid. tid < 32"
        and addr = "\<lambda>tid. 4 * tid + 4 * tid div 32 + r" and val = val])
    show "t < N" using t N by simp
    show "t < 32" by (rule t)
    fix t' assume "4 * t' + 4 * t' div 32 + r = 4 * t + 4 * t div 32 + r"
    then have "t' = t" using pad4_inj r(1) by blast
    then show "val t' = val t" by simp
  qed
  then show ?thesis using True by simp
next
  case False
  have "store N (\<lambda>tid. tid < 32) (\<lambda>tid. 4 * tid + 4 * tid div 32 + r) val a
          (4 * t + 4 * t div 32 + r') = a (4 * t + 4 * t div 32 + r')"
  proof (rule store_other)
    fix t' show "4 * t' + 4 * t' div 32 + r \<noteq> 4 * t + 4 * t div 32 + r'"
      using False r pad4_inj by blast
  qed
  then show ?thesis using False by simp
qed

lemma scan_digit_totals_5:
  assumes d: "d < 32"
  shows "scan_digit_totals N 5 tot (d + d div 32) = (\<Sum>d'<d. tot (d' + d' div 32))"
proof -
  have "(\<Sum>d'<d. tot (d' + d' div 32)) = (\<Sum>d'<d. tot d')"
    by (rule sum.cong) (use d in auto)
  then show ?thesis
    using d by (simp add: scan_digit_totals_def IntraWarpParallelScan_def)
qed

lemma scan_digit_totals_6_unfold:
  "scan_digit_totals N 6 tot =
     store N (\<lambda>tid. tid < 32) (\<lambda>tid. 2 * tid + 2 * tid div 32 + 1)
       (\<lambda>tid. snd (IntraWarpScan64
                 (\<lambda>tid. (tot (2 * tid + 2 * tid div 32 + 0), tot (2 * tid + 2 * tid div 32 + 1))) tid))
       (store N (\<lambda>tid. tid < 32) (\<lambda>tid. 2 * tid + 2 * tid div 32 + 0)
          (\<lambda>tid. fst (IntraWarpScan64
                 (\<lambda>tid. (tot (2 * tid + 2 * tid div 32 + 0), tot (2 * tid + 2 * tid div 32 + 1))) tid))
          tot)"
  by (simp add: scan_digit_totals_def Let_def WARP_SIZE_def)

lemma scan_digit_totals_6:
  assumes N: "32 \<le> N" and d: "d < 64"
  shows "scan_digit_totals N 6 tot (d + d div 32) = (\<Sum>d'<d. tot (d' + d' div 32))"
proof -
  define g where "g = (\<lambda>k. tot (k + k div 32))"
  define val where
    "val = (\<lambda>tid. (tot (2 * tid + 2 * tid div 32 + 0), tot (2 * tid + 2 * tid div 32 + 1)))"
  define t where "t = d div 2"
  define r where "r = d mod 2"
  have t: "t < 32" using d by (simp add: t_def)
  have r: "r < 2" by (simp add: r_def)
  have dtr: "d = 2 * t + r" by (simp add: t_def r_def)
  have addr: "d + d div 32 = 2 * t + 2 * t div 32 + r"
    unfolding dtr using pad2 [OF r, of t] by simp
  have val: "val u = (g (2 * u), g (2 * u + 1))" for u
    using pad2 [of 1 u] by (simp add: val_def g_def ac_simps)
  have excl: "(\<Sum>u<t. fst (val u) + snd (val u)) = (\<Sum>k<2 * t. g k)"
    unfolding val fst_conv snd_conv by (rule pair_sum)
  have v: "IntraWarpScan64 val t = (\<Sum>k<2 * t. g k, (\<Sum>k<2 * t. g k) + g (2 * t))"
    unfolding IntraWarpScan64_def Let_def excl by (simp add: val)
  have "scan_digit_totals N 6 tot (2 * t + 2 * t div 32 + r)
          = (if r = 1 then snd (IntraWarpScan64 val t)
             else if r = 0 then fst (IntraWarpScan64 val t) else tot (2 * t + 2 * t div 32 + r))"
    unfolding scan_digit_totals_6_unfold val_def [symmetric]
    using store_pad2 [OF N _ r t, of 1] store_pad2 [OF N _ r t, of 0] by simp
  also have "\<dots> = (\<Sum>k<2 * t + r. g k)"
  proof -
    consider "r = 0" | "r = 1" using r by linarith
    then show ?thesis
      by cases (simp_all add: v)
  qed
  finally show ?thesis
    unfolding addr by (simp add: dtr g_def)
qed

lemma scan_digit_totals_7_unfold:
  "scan_digit_totals N 7 tot =
     (let val = (\<lambda>tid. (tot (4 * tid + 4 * tid div 32 + 0), tot (4 * tid + 4 * tid div 32 + 1),
                         tot (4 * tid + 4 * tid div 32 + 2), tot (4 * tid + 4 * tid div 32 + 3)));
          v = IntraWarpScan128 val
      in store N (\<lambda>tid. tid < 32) (\<lambda>tid. 4 * tid + 4 * tid div 32 + 3)
           (\<lambda>tid. snd (snd (snd (v tid))))
           (store N (\<lambda>tid. tid < 32) (\<lambda>tid. 4 * tid + 4 * tid div 32 + 2)
              (\<lambda>tid. fst (snd (snd (v tid))))
              (store N (\<lambda>tid. tid < 32) (\<lambda>tid. 4 * tid + 4 * tid div 32 + 1)
                 (\<lambda>tid. fst (snd (v tid)))
                 (store N (\<lambda>tid. tid < 32) (\<lambda>tid. 4 * tid + 4 * tid div 32 + 0)
                    (\<lambda>tid. fst (v tid)) tot))))"
  by (simp add: scan_digit_totals_def Let_def WARP_SIZE_def)

lemma scan_digit_totals_7:
  assumes N: "32 \<le> N" and d: "d < 128"
  shows "scan_digit_totals N 7 tot (d + d div 32) = (\<Sum>d'<d. tot (d' + d' div 32))"
proof -
  define g where "g = (\<lambda>k. tot (k + k div 32))"
  define val where
    "val = (\<lambda>tid. (tot (4 * tid + 4 * tid div 32 + 0), tot (4 * tid + 4 * tid div 32 + 1),
                    tot (4 * tid + 4 * tid div 32 + 2), tot (4 * tid + 4 * tid div 32 + 3)))"
  define t where "t = d div 4"
  define r where "r = d mod 4"
  have t: "t < 32" using d by (simp add: t_def)
  have r: "r < 4" by (simp add: r_def)
  have dtr: "d = 4 * t + r" by (simp add: t_def r_def)
  have addr: "d + d div 32 = 4 * t + 4 * t div 32 + r"
    unfolding dtr using pad4 [OF r, of t] by simp
  have val: "val u = (g (4 * u), g (4 * u + 1), g (4 * u + 2), g (4 * u + 3))" for u
    using pad4 [of 1 u] pad4 [of 2 u] pad4 [of 3 u] by (simp add: val_def g_def ac_simps)
  have excl: "(\<Sum>u<t. (\<lambda>(x, y, z, w). x + y + z + w) (val u)) = (\<Sum>k<4 * t. g k)"
    unfolding val prod.case by (rule quad_sum)
  define e where "e = (\<Sum>k<4 * t. g k)"
  have v: "IntraWarpScan128 val t
             = (e, e + g (4 * t), e + g (4 * t) + g (4 * t + 1),
                e + g (4 * t) + g (4 * t + 1) + g (4 * t + 2))"
    unfolding IntraWarpScan128_def Let_def excl by (simp add: val e_def)
  have "scan_digit_totals N 7 tot (4 * t + 4 * t div 32 + r)
          = (if r = 3 then snd (snd (snd (IntraWarpScan128 val t)))
             else if r = 2 then fst (snd (snd (IntraWarpScan128 val t)))
             else if r = 1 then fst (snd (IntraWarpScan128 val t))
             else if r = 0 then fst (IntraWarpScan128 val t)
             else tot (4 * t + 4 * t div 32 + r))"
    unfolding scan_digit_totals_7_unfold val_def [symmetric] Let_def
    using store_pad4 [OF N _ r t, of 3] store_pad4 [OF N _ r t, of 2]
      store_pad4 [OF N _ r t, of 1] store_pad4 [OF N _ r t, of 0] by simp
  also have "\<dots> = (\<Sum>k<4 * t + r. g k)"
  proof -
    consider "r = 0" | "r = 1" | "r = 2" | "r = 3" using r by linarith
    then show ?thesis
    proof cases
      case 1 then show ?thesis by (simp add: v e_def)
    next
      case 2 then show ?thesis by (simp add: v e_def)
    next
      case 3
      have "(\<Sum>k<4 * t + 2. g k) = e + g (4 * t) + g (4 * t + 1)"
        using sum_split [of g "4 * t" 2] by (simp add: e_def eval_nat_numeral add.assoc)
      then show ?thesis using 3 by (simp add: v)
    next
      case 4
      have "(\<Sum>k<4 * t + 3. g k) = e + g (4 * t) + g (4 * t + 1) + g (4 * t + 2)"
        using sum_split [of g "4 * t" 3] by (simp add: e_def eval_nat_numeral add.assoc)
      then show ?thesis using 4 by (simp add: v)
    qed
  qed
  finally show ?thesis
    unfolding addr by (simp add: dtr g_def)
qed

lemma scan_digit_totals_result:
  assumes n: "5 \<le> n" "n \<le> 7" and N: "32 \<le> N" and d: "d < 2 ^ n"
  shows "scan_digit_totals N n tot (d + d div 32) = (\<Sum>d'<d. tot (d' + d' div 32))"
proof -
  consider "n = 5" | "n = 6" | "n = 7" using n by linarith
  then show ?thesis
  proof cases
    case 1 then show ?thesis using d scan_digit_totals_5 [of d N tot] by simp
  next
    case 2 then show ?thesis using d scan_digit_totals_6 [OF N, of d tot] by simp
  next
    case 3 then show ?thesis using d scan_digit_totals_7 [OF N, of d tot] by simp
  qed
qed

lemma columns_exact:
  assumes "n \<le> 10"
  shows "1024 div 2 ^ n * 2 ^ n = (1024::nat)"
proof -
  have "(2::nat) ^ n dvd 2 ^ 10" using assms by (rule le_imp_power_dvd)
  then have "(2::nat) ^ n dvd 1024" by simp
  then show ?thesis by (rule dvd_div_mult_self)
qed

lemma column_index_less:
  assumes "i < C" and "d < D"
  shows "i * D + d < C * (D::nat)"
proof -
  have "i * D + d < i * D + D" using assms(2) by simp
  also have "\<dots> = Suc i * D" by simp
  also have "\<dots> \<le> C * D" using assms(1) by (intro mult_le_mono1) simp
  finally show ?thesis .
qed

lemma StridedMultiScan_sequential_correct:
  assumes n5: "5 \<le> n" and n7: "n \<le> 7"
  shows "\<And>t. t < 1024 \<Longrightarrow>
           fst (StridedMultiScan_sequential 1024 n x sh tot) t
             = strided_exclusive (2 ^ n) (1024 div 2 ^ n) x t"
    and "\<And>d. d < 2 ^ n \<Longrightarrow>
           snd (snd (StridedMultiScan_sequential 1024 n x sh tot)) (d + d div 32)
             = (\<Sum>d'<d. digit_total (2 ^ n) (1024 div 2 ^ n) x d')"
proof -
  define D :: nat where "D = 2 ^ n"
  define C :: nat where "C = 1024 div D"
  define sh0 where "sh0 = store 1024 (\<lambda>tid. True) (\<lambda>tid. tid) x sh"
  define f where "f = duplicate_scan 1024 n x sh0 tot"
  define tot2 where "tot2 = scan_digit_totals 1024 n (snd (snd f))"
  have unf: "StridedMultiScan_sequential 1024 n x sh tot =
      (\<lambda>tid. tot2 (lane2 n tid + lane2 n tid div WARP_SIZE) + fst (snd f) tid, fst (snd f), tot2)"
    unfolding StridedMultiScan_sequential_def Let_def case_prod_beta tot2_def f_def sh0_def
    by (rule refl)
  have "(2::nat) ^ n \<le> 2 ^ 7" using n7 by (rule power_increasing) simp
  then have D128: "D \<le> 128" by (simp add: D_def)
  then have DN: "2 ^ n \<le> (1024::nat)" by (simp add: D_def)
  have CD: "C * D = 1024" using columns_exact [of n] n7 by (simp add: C_def D_def)
  have sh0: "sh0 j = x j" if "j < 1024" for j
    using that by (simp add: sh0_def store_id)
  have col: "sh0 (i * D + d) = x (i * D + d)" if "i < C" "d < D" for i d
    using column_index_less [OF that] by (simp add: sh0 CD)
  have shared: "fst (snd f) j = (\<Sum>i<j div D. x (i * D + j mod D))" if j: "j < 1024" for j
  proof -
    have "fst (snd f) j = (\<Sum>i<j div D. sh0 (i * D + j mod D))"
      unfolding f_def D_def
      by (rule duplicate_scan_results(1) [OF DN]) (use j CD in \<open>simp add: C_def D_def\<close>)
    also have "\<dots> = (\<Sum>i<j div D. x (i * D + j mod D))"
    proof (rule sum.cong)
      fix i assume "i \<in> {..<j div D}"
      then have "i \<le> j div D" by simp
      then have "i * D \<le> j div D * D" by (rule mult_le_mono1)
      then have "i * D + j mod D \<le> j div D * D + j mod D" by (rule add_right_mono)
      also have "\<dots> = j" by simp
      finally have "i * D + j mod D < 1024" using j by simp
      then show "sh0 (i * D + j mod D) = x (i * D + j mod D)"
        by (rule sh0)
    qed simp
    finally show ?thesis .
  qed
  have totals: "snd (snd f) (d + d div 32) = digit_total D C x d" if d: "d < D" for d
  proof -
    have "snd (snd f) (d + d div 32) = (\<Sum>i<C. sh0 (i * D + d))"
      unfolding f_def D_def C_def
      by (rule duplicate_scan_results(2) [OF DN]) (use d in \<open>simp add: D_def\<close>)
    also have "\<dots> = (\<Sum>i<C. x (i * D + d))"
      by (rule sum.cong) (use d in \<open>simp_all add: col\<close>)
    finally show ?thesis by (simp add: digit_total_def)
  qed
  have scanned: "tot2 (d + d div 32) = (\<Sum>d'<d. digit_total D C x d')" if d: "d < D" for d
  proof -
    have "tot2 (d + d div 32) = (\<Sum>d'<d. snd (snd f) (d' + d' div 32))"
      unfolding tot2_def
      by (rule scan_digit_totals_result [OF n5 n7]) (use d in \<open>simp_all add: D_def\<close>)
    also have "\<dots> = (\<Sum>d'<d. digit_total D C x d')"
      by (rule sum.cong) (use d in \<open>simp_all add: totals\<close>)
    finally show ?thesis .
  qed
  show "snd (snd (StridedMultiScan_sequential 1024 n x sh tot)) (d + d div 32)
          = (\<Sum>d'<d. digit_total (2 ^ n) (1024 div 2 ^ n) x d')" if "d < 2 ^ n" for d
    unfolding unf using scanned [of d] that by (simp add: D_def C_def)
  show "fst (StridedMultiScan_sequential 1024 n x sh tot) t
          = strided_exclusive (2 ^ n) (1024 div 2 ^ n) x t" if t: "t < 1024" for t
  proof -
    have "t mod D < D" by (simp add: D_def)
    then show ?thesis
      unfolding unf strided_exclusive_def
      using scanned [of "t mod D"] shared [OF t]
      by (simp add: lane2_mod WARP_SIZE_def D_def C_def)
  qed
qed

lemma StridedMultiScan_correct:
  assumes n1: "0 < n" and n7: "n \<le> 7"
  shows "\<And>t. t < 1024 \<Longrightarrow>
           fst (StridedMultiScan 1024 n x sh tot) t
             = strided_exclusive (2 ^ n) (1024 div 2 ^ n) x t"
    and "\<And>d. d < 2 ^ n \<Longrightarrow>
           snd (snd (StridedMultiScan 1024 n x sh tot)) (d + d div 32)
             = (\<Sum>d'<d. digit_total (2 ^ n) (1024 div 2 ^ n) x d')"
proof -
  have branch: "NumDigits n < WARP_SIZE \<longleftrightarrow> n < 5"
  proof -
    have "(2::nat) ^ n < 2 ^ 5 \<longleftrightarrow> n < 5" by (rule power_strict_increasing_iff) simp
    then show ?thesis by (simp add: NumDigits_pow WARP_SIZE_def)
  qed
  show "fst (StridedMultiScan 1024 n x sh tot) t
          = strided_exclusive (2 ^ n) (1024 div 2 ^ n) x t" if t: "t < 1024" for t
  proof (cases "n < 5")
    case True
    then have "n \<le> 4" by simp
    then show ?thesis
      using True StridedMultiScan_parallel_correct(1) [OF n1 _ t, of x sh tot]
      by (simp add: StridedMultiScan_def branch)
  next
    case False
    then have "5 \<le> n" by simp
    then show ?thesis
      using False StridedMultiScan_sequential_correct(1) [OF _ n7 t, of x sh tot]
      by (simp add: StridedMultiScan_def branch)
  qed
  show "snd (snd (StridedMultiScan 1024 n x sh tot)) (d + d div 32)
          = (\<Sum>d'<d. digit_total (2 ^ n) (1024 div 2 ^ n) x d')" if d: "d < 2 ^ n" for d
  proof (cases "n < 5")
    case True
    then have n4: "n \<le> 4" by simp
    have "(2::nat) ^ n \<le> 2 ^ 4" using n4 by (rule power_increasing) simp
    then have "d div 32 = 0" using d by simp
    then show ?thesis
      using True StridedMultiScan_parallel_correct(2) [OF n1 n4 d, of x sh tot]
      by (simp add: StridedMultiScan_def branch)
  next
    case False
    then have "5 \<le> n" by simp
    then show ?thesis
      using False StridedMultiScan_sequential_correct(2) [OF _ n7 d, of x sh tot]
      by (simp add: StridedMultiScan_def branch)
  qed
qed

lemma columns_pow:
  assumes "n \<le> 10"
  shows "1024 div 2 ^ n = (2::nat) ^ (10 - n)"
proof -
  define A :: nat where "A = 2 ^ (10 - n)"
  define D :: nat where "D = 2 ^ n"
  have "(2::nat) ^ (10 - n) * 2 ^ n = 2 ^ 10"
    using assms by (simp flip: power_add)
  then have e: "A * D = 1024" by (simp add: A_def D_def)
  have D: "0 < D" by (simp add: D_def)
  have "1024 div D = A * D div D" by (simp only: e)
  also have "\<dots> = A" using D by simp
  finally show ?thesis by (simp only: A_def D_def)
qed

lemma quot_unat:
  fixes numTasks :: uint
  assumes "n \<le> 10"
  shows "unat (numTasks div of_nat (1024 div 2 ^ n)) = unat numTasks div (1024 div 2 ^ n)"
proof -
  have "(2::nat) ^ (10 - n) \<le> 2 ^ 10" by (rule power_increasing) simp_all
  then have "(2::nat) ^ (10 - n) < 2 ^ LENGTH(32)" by simp
  then have "unat (of_nat (2 ^ (10 - n)) :: uint) = 2 ^ (10 - n)"
    by (rule of_nat_inverse [OF refl])
  then show ?thesis
    by (simp add: unat_div columns_pow [OF assms])
qed

lemma rem_unat:
  fixes numTasks :: uint
  assumes "n \<le> 10"
  shows "unat (of_nat (1024 div 2 ^ n - 1) AND numTasks) = unat numTasks mod (1024 div 2 ^ n)"
proof -
  have "(of_nat (2 ^ (10 - n) - 1) :: uint) = of_nat (mask (10 - n))"
    by (simp only: mask_eq_exp_minus_1)
  also have "\<dots> = mask (10 - n)" by (rule of_nat_mask_eq)
  finally have "of_nat (2 ^ (10 - n) - 1) AND numTasks = take_bit (10 - n) numTasks"
    by (simp add: take_bit_eq_mask and.commute)
  then have "unat (of_nat (2 ^ (10 - n) - 1) AND numTasks) = take_bit (10 - n) (unat numTasks)"
    by (simp add: unsigned_take_bit_eq)
  then show ?thesis
    by (simp add: take_bit_eq_mod columns_pow [OF assms])
qed

lemma range_start_0: "range_start C T 0 = 0"
  by (simp add: range_start_def)

lemma range_start_Suc:
  "range_start C T (Suc c) = range_start C T c + T div C + (if c < T mod C then 1 else 0)"
  by (simp add: range_start_def min_def)

lemma range_start_mono_Suc: "range_start C T c \<le> range_start C T (Suc c)"
  by (simp add: range_start_Suc)

lemma range_start_mono: "c \<le> c' \<Longrightarrow> range_start C T c \<le> range_start C T c'"
  by (rule lift_Suc_mono_le [of "range_start C T"]) (rule range_start_mono_Suc)

lemma range_start_all:
  assumes "0 < C"
  shows "range_start C T C = T"
proof -
  have "T mod C < C" using assms by simp
  then have "min C (T mod C) = T mod C" by simp
  then show ?thesis by (simp add: range_start_def)
qed

lemma ComputeTaskRange_balanced:
  assumes "c < C"
  shows "ComputeTaskRange c (T div C) (T mod C) 1 T = (range_start C T c, range_start C T (Suc c))"
proof -
  have "range_start C T (Suc c) \<le> range_start C T C"
    using assms by (intro range_start_mono) simp
  also have "\<dots> = T" using assms by (intro range_start_all) simp
  finally have le: "range_start C T (Suc c) \<le> T" .
  have "ComputeTaskRange c (T div C) (T mod C) 1 T
          = (range_start C T c, min (range_start C T (Suc c)) T)"
    by (simp add: ComputeTaskRange_def Let_def range_start_def min_def)
  then show ?thesis using le by (simp add: min_def)
qed

lemma slot_less:
  assumes "d < D" and "a < b"
  shows "D * a + d < D * (b::nat)"
proof -
  have "D * a + d < D * a + D" using assms(1) by simp
  also have "\<dots> = D * Suc a" by simp
  also have "\<dots> \<le> D * b" using assms(2) by (intro mult_le_mono2) simp
  finally show ?thesis .
qed

lemma slot_not_less:
  assumes "b \<le> a"
  shows "\<not> D * a + d < D * (b::nat)"
proof -
  have "D * b \<le> D * a" using assms by (rule mult_le_mono2)
  then have "D * b \<le> D * a + d" by (rule trans_le_add1)
  then show ?thesis by (simp only: not_less)
qed

lemma slot_parts:
  assumes "d < D"
  shows "(D * k + d) div D = (k::nat)" and "(D * k + d) mod D = d"
  using assms by simp_all

lemma upsweep_sum:
  assumes d: "d < 2 ^ n"
  shows "upsweep n g (2 ^ n * a + d) (2 ^ n * b) acc = acc + (\<Sum>k = a..<b. g (2 ^ n * k + d))"
proof (induction "b - a" arbitrary: a acc)
  case 0
  then have "b \<le> a" by simp
  then show ?case
    using slot_not_less [of b a "2 ^ n" d] by (subst upsweep.simps) simp
next
  case (Suc m)
  then have ab: "a < b" and m: "m = b - Suc a" by simp_all
  have lt: "2 ^ n * a + d < 2 ^ n * b" using d ab by (rule slot_less)
  have "upsweep n g (2 ^ n * a + d) (2 ^ n * b) acc
          = upsweep n g (2 ^ n * Suc a + d) (2 ^ n * b) (acc + g (2 ^ n * a + d))"
    using lt by (subst upsweep.simps) (simp add: NumDigits_pow add.commute add.left_commute)
  also have "\<dots> = acc + g (2 ^ n * a + d) + (\<Sum>k = Suc a..<b. g (2 ^ n * k + d))"
    by (rule Suc.hyps(1) [OF m])
  also have "\<dots> = acc + (\<Sum>k = a..<b. g (2 ^ n * k + d))"
    using ab by (simp add: sum.atLeast_Suc_lessThan add.assoc)
  finally show ?case .
qed

lemma downsweep_result:
  assumes d: "d < 2 ^ n"
  shows "fst (downsweep n (2 ^ n * a + d) (2 ^ n * b) ex (g, u)) j
           = (if j mod 2 ^ n = d \<and> a \<le> j div 2 ^ n \<and> j div 2 ^ n < b
              then 4 * sweep_val (2 ^ n) g d a ex (j div 2 ^ n) else g j)
       \<and> snd (downsweep n (2 ^ n * a + d) (2 ^ n * b) ex (g, u)) j
           = (if j mod 2 ^ n = d \<and> a \<le> j div 2 ^ n \<and> j div 2 ^ n < b
              then sweep_val (2 ^ n) g d a ex (j div 2 ^ n) else u j)"
proof (induction "b - a" arbitrary: a ex g u)
  case 0
  then have ba: "b \<le> a" by simp
  have e: "downsweep n (2 ^ n * a + d) (2 ^ n * b) ex (g, u) = (g, u)"
    using slot_not_less [OF ba, of "2 ^ n" d] by (subst downsweep.simps) simp
  have "\<not> (j mod 2 ^ n = d \<and> a \<le> j div 2 ^ n \<and> j div 2 ^ n < b)"
    using ba by linarith
  then show ?case by (simp only: e if_False fst_conv snd_conv simp_thms)
next
  case (Suc m)
  then have ab: "a < b" and m: "m = b - Suc a" by simp_all
  define D :: nat where "D = 2 ^ n"
  define i where "i = D * a + d"
  define g1 where "g1 = g(i := 4 * ex)"
  define u1 where "u1 = u(i := ex)"
  have dD: "d < D" using d by (simp add: D_def)
  have lt: "i < D * b" unfolding i_def using dD ab by (rule slot_less)
  have ip: "i div D = a" "i mod D = d" using slot_parts [OF dD, of a] by (simp_all add: i_def)
  have step: "downsweep n i (D * b) ex (g, u)
                = downsweep n (D * Suc a + d) (D * b) (ex + g i) (g1, u1)"
    using lt
    by (subst downsweep.simps)
      (simp add: NumDigits_pow Let_def g1_def u1_def i_def D_def add.commute add.left_commute)
  note IH = Suc.hyps(1) [OF m, of "ex + g i" g1 u1, folded D_def]
  have g1: "g1 (D * k + d) = g (D * k + d)" if "Suc a \<le> k" for k
  proof -
    have "D * k + d \<noteq> i"
      using slot_parts(1) [OF dD, of k] ip(1) that by auto
    then show ?thesis by (simp add: g1_def)
  qed
  have sv: "sweep_val D g1 d (Suc a) (ex + g i) k = sweep_val D g d a ex k" if "Suc a \<le> k" for k
  proof -
    have "(\<Sum>k' = Suc a..<k. g1 (D * k' + d)) = (\<Sum>k' = Suc a..<k. g (D * k' + d))"
      by (rule sum.cong) (simp_all add: g1)
    moreover have "(\<Sum>k' = a..<k. g (D * k' + d)) = g i + (\<Sum>k' = Suc a..<k. g (D * k' + d))"
      using that by (simp add: sum.atLeast_Suc_lessThan i_def)
    ultimately show ?thesis by (simp add: sweep_val_def add.assoc)
  qed
  let ?inner = "j mod D = d \<and> Suc a \<le> j div D \<and> j div D < b"
  let ?outer = "j mod D = d \<and> a \<le> j div D \<and> j div D < b"
  have res: "fst (downsweep n i (D * b) ex (g, u)) j
               = (if ?inner then 4 * sweep_val D g1 d (Suc a) (ex + g i) (j div D) else g1 j)
           \<and> snd (downsweep n i (D * b) ex (g, u)) j
               = (if ?inner then sweep_val D g1 d (Suc a) (ex + g i) (j div D) else u1 j)"
    unfolding step by (rule IH)
  have goal: "fst (downsweep n i (D * b) ex (g, u)) j
               = (if ?outer then 4 * sweep_val D g d a ex (j div D) else g j)
           \<and> snd (downsweep n i (D * b) ex (g, u)) j
               = (if ?outer then sweep_val D g d a ex (j div D) else u j)"
  proof (cases ?inner)
    case True
    then have o: ?outer by simp
    have "Suc a \<le> j div D" using True by simp
    then have "sweep_val D g1 d (Suc a) (ex + g i) (j div D) = sweep_val D g d a ex (j div D)"
      by (rule sv)
    then show ?thesis using res True o by simp
  next
    case inner: False
    show ?thesis
    proof (cases "j = i")
      case True
      have o: ?outer using ip ab by (simp add: True)
      have "sweep_val D g d a ex (j div D) = ex"
        using ip by (simp add: True sweep_val_def)
      moreover have "g1 j = 4 * ex" "u1 j = ex" by (simp_all add: True g1_def u1_def)
      ultimately show ?thesis using res inner o by simp
    next
      case False
      have "\<not> (j mod D = d \<and> j div D = a)"
      proof
        assume "j mod D = d \<and> j div D = a"
        then have "j = D * a + d" by (metis mult_div_mod_eq)
        then show False using False by (simp add: i_def)
      qed
      then have o: "\<not> ?outer" using inner by (auto simp: le_Suc_eq)
      have "g1 j = g j" "u1 j = u j" using False by (simp_all add: g1_def u1_def)
      then show ?thesis using res inner o by auto
    qed
  qed
  then show ?case by (simp only: D_def i_def)
qed

lemma owns_unique:
  assumes mono: "\<And>c c'. c \<le> c' \<Longrightarrow> rx c \<le> rx c'"
    and "owns D rx t j" and "owns D rx t' j"
  shows "t = t'"
proof -
  have m: "t mod D = t' mod D" using assms(2,3) by (simp add: owns_def)
  have a: "rx (t div D) \<le> j div D" "j div D < rx (Suc (t div D))"
    and b: "rx (t' div D) \<le> j div D" "j div D < rx (Suc (t' div D))"
    using assms(2,3) by (simp_all add: owns_def)
  have "\<not> t div D < t' div D"
  proof
    assume "t div D < t' div D"
    then have "rx (Suc (t div D)) \<le> rx (t' div D)" by (intro mono) simp
    then show False using a(2) b(1) by simp
  qed
  moreover have "\<not> t' div D < t div D"
  proof
    assume "t' div D < t div D"
    then have "rx (Suc (t' div D)) \<le> rx (t div D)" by (intro mono) simp
    then show False using b(2) a(1) by simp
  qed
  ultimately have "t div D = t' div D" by simp
  then show ?thesis using m by (metis div_mult_mod_eq)
qed

lemma sweep_val_cong:
  assumes "\<And>k'. a \<le> k' \<Longrightarrow> k' < k \<Longrightarrow> g' (D * k' + d) = g (D * k' + d)"
  shows "sweep_val D g' d a ex k = sweep_val D g d a ex k"
proof -
  have "(\<Sum>k' = a..<k. g' (D * k' + d)) = (\<Sum>k' = a..<k. g (D * k' + d))"
    by (rule sum.cong) (simp_all add: assms)
  then show ?thesis by (simp add: sweep_val_def)
qed

lemma threads_fold:
  fixes E :: "nat \<Rightarrow> uint" and n :: nat and g u :: array and rx :: "nat \<Rightarrow> nat"
  assumes mono: "\<And>c c'. c \<le> c' \<Longrightarrow> rx c \<le> rx c'"
  defines "D \<equiv> 2 ^ n"
  defines "F \<equiv> (\<lambda>m. fold (\<lambda>tid. downsweep n (D * rx (tid div D) + tid mod D)
                                (D * rx (Suc (tid div D))) (E tid)) [0..<m] (g, u))"
  shows "(\<forall>j. (\<forall>t<m. \<not> owns D rx t j) \<longrightarrow> fst (F m) j = g j \<and> snd (F m) j = u j)
       \<and> (\<forall>t<m. \<forall>j. owns D rx t j \<longrightarrow>
             fst (F m) j = 4 * sweep_val D g (t mod D) (rx (t div D)) (E t) (j div D)
           \<and> snd (F m) j = sweep_val D g (t mod D) (rx (t div D)) (E t) (j div D))"
proof (induction m)
  case 0
  show ?case by (simp add: F_def)
next
  case (Suc m)
  define gm where "gm = fst (F m)"
  define um where "um = snd (F m)"
  define d where "d = m mod D"
  define a where "a = rx (m div D)"
  define b where "b = rx (Suc (m div D))"
  have D: "0 < D" by (simp add: D_def)
  have d: "d < 2 ^ n" using D by (simp add: d_def D_def)
  have IH1: "\<And>j. (\<And>t. t < m \<Longrightarrow> \<not> owns D rx t j) \<Longrightarrow> gm j = g j \<and> um j = u j"
    and IH2: "\<And>t j. t < m \<Longrightarrow> owns D rx t j \<Longrightarrow>
                gm j = 4 * sweep_val D g (t mod D) (rx (t div D)) (E t) (j div D)
              \<and> um j = sweep_val D g (t mod D) (rx (t div D)) (E t) (j div D)"
    using Suc.IH by (simp_all add: gm_def um_def)
  have step: "F (Suc m) = downsweep n (D * a + d) (D * b) (E m) (gm, um)"
    by (simp add: F_def gm_def um_def a_def b_def d_def)
  have own_m: "owns D rx m j \<longleftrightarrow> j mod D = d \<and> a \<le> j div D \<and> j div D < b" for j
    by (simp add: owns_def a_def b_def d_def)
  have res: "fst (F (Suc m)) j
               = (if owns D rx m j then 4 * sweep_val D gm d a (E m) (j div D) else gm j)
           \<and> snd (F (Suc m)) j
               = (if owns D rx m j then sweep_val D gm d a (E m) (j div D) else um j)" for j
    unfolding step own_m unfolding D_def by (rule downsweep_result [OF d])
  have fresh: "gm (D * k + d) = g (D * k + d)" if k: "a \<le> k" "k < b" for k
  proof -
    have dD: "d < D" using d by (simp add: D_def)
    have o: "owns D rx m (D * k + d)"
      unfolding own_m using k slot_parts [OF dD, of k] by simp
    have "\<not> owns D rx t (D * k + d)" if "t < m" for t
      using owns_unique [OF mono, where D = D and t = t and j = "D * k + d" and t' = m] o that
      by auto
    then show ?thesis using IH1 by simp
  qed
  have sv: "sweep_val D gm d a (E m) k = sweep_val D g d a (E m) k" if "k < b" for k
    by (rule sweep_val_cong) (use that in \<open>simp add: fresh\<close>)
  have part1: "fst (F (Suc m)) j = g j \<and> snd (F (Suc m)) j = u j"
    if no: "\<And>t. t < Suc m \<Longrightarrow> \<not> owns D rx t j" for j
  proof -
    have "\<not> owns D rx m j" using no by simp
    moreover have "gm j = g j \<and> um j = u j" using no by (intro IH1) simp
    ultimately show ?thesis using res [of j] by simp
  qed
  have part2: "fst (F (Suc m)) j = 4 * sweep_val D g (t mod D) (rx (t div D)) (E t) (j div D)
             \<and> snd (F (Suc m)) j = sweep_val D g (t mod D) (rx (t div D)) (E t) (j div D)"
    if t: "t < Suc m" and o: "owns D rx t j" for t j
  proof (cases "t = m")
    case True
    have "j div D < b" using o by (simp add: True own_m)
    then show ?thesis
      using res [of j] o sv [of "j div D"] by (simp add: True a_def d_def)
  next
    case False
    then have tm: "t < m" using t by simp
    have "\<not> owns D rx m j"
      using owns_unique [OF mono, where D = D and t = t and j = j and t' = m] o False by auto
    then show ?thesis using res [of j] IH2 [OF tm o] by simp
  qed
  show ?case using part1 part2 by blast
qed

lemma column_exists:
  assumes "rx 0 \<le> (b::nat)" and "b < rx C"
  shows "\<exists>c<C. rx c \<le> b \<and> b < rx (Suc c)"
  using assms(2)
proof (induction C)
  case 0
  then show ?case using assms(1) by simp
next
  case (Suc C)
  show ?case
  proof (cases "b < rx C")
    case True
    then obtain c where "c < C" "rx c \<le> b \<and> b < rx (Suc c)" using Suc.IH by blast
    then show ?thesis by (intro exI [of _ c]) simp
  next
    case False
    then show ?thesis using Suc.prems by (intro exI [of _ C]) simp
  qed
qed

lemma telescope:
  fixes f :: "nat \<Rightarrow> uint"
  assumes mono: "\<And>c. rx c \<le> rx (Suc c)" and zero: "rx 0 = 0"
  shows "(\<Sum>c<m. \<Sum>k = rx c..<rx (Suc c). f k) = (\<Sum>k<rx m. f k)"
proof (induction m)
  case 0
  show ?case by (simp add: zero)
next
  case (Suc m)
  have "0 \<le> rx m" by simp
  then have "(\<Sum>k = 0..<rx m. f k) + (\<Sum>k = rx m..<rx (Suc m). f k) = (\<Sum>k = 0..<rx (Suc m). f k)"
    using mono [of m] by (rule sum.atLeastLessThan_concat)
  then show ?case using Suc by (simp add: lessThan_atLeast0)
qed

lemma task_range_unfold:
  "task_range 1024 n numTasks tid =
     ComputeTaskRange (tid div NumDigits n)
       (unat (numTasks div of_nat (1024 div NumDigits n)))
       (unat (of_nat (1024 div NumDigits n - 1) AND numTasks)) 1 (unat numTasks)"
  by (simp add: task_range_def Let_def)

lemma SortHist_fields:
  defines "sms \<equiv> (\<lambda>n g numTasks sh tot. StridedMultiScan 1024 n (lane_count n g numTasks) sh tot)"
  shows "blockTotals (SortHist 1024 n g numTasks tsg sh tot)
           = fst (fold (\<lambda>tid. downsweep n
                     (NumDigits n * fst (task_range 1024 n numTasks tid) + lane2 n tid)
                     (NumDigits n * snd (task_range 1024 n numTasks tid))
                     (fst (sms n g numTasks sh tot) tid)) [0..<1024] (g, \<lambda>i. 0))"
    and "unscaled (SortHist 1024 n g numTasks tsg sh tot)
           = snd (fold (\<lambda>tid. downsweep n
                     (NumDigits n * fst (task_range 1024 n numTasks tid) + lane2 n tid)
                     (NumDigits n * snd (task_range 1024 n numTasks tid))
                     (fst (sms n g numTasks sh tot) tid)) [0..<1024] (g, \<lambda>i. 0))"
    and "totalsScan (SortHist 1024 n g numTasks tsg sh tot)
           = map_option (store 1024 (\<lambda>tid. tid < NumDigits n) (\<lambda>tid. tid)
                          (\<lambda>tid. snd (snd (sms n g numTasks sh tot)) (tid + tid div WARP_SIZE))) tsg"
  unfolding SortHist_def Let_def case_prod_beta sms_def lane_count_def [abs_def]
  by (simp_all only: SortHist_result.select_convs)

lemma task_range_eq:
  assumes n: "n \<le> 10" and t: "tid < 1024"
  shows "task_range 1024 n numTasks tid
           = (range_start (1024 div 2 ^ n) (unat numTasks) (tid div 2 ^ n),
              range_start (1024 div 2 ^ n) (unat numTasks) (Suc (tid div 2 ^ n)))"
proof -
  have "tid div 2 ^ n * 2 ^ n \<le> tid" by simp
  then have "tid div 2 ^ n * 2 ^ n < 1024" using t by (rule le_less_trans)
  then have "tid div 2 ^ n * 2 ^ n < 1024 div 2 ^ n * 2 ^ n"
    by (simp only: columns_exact [OF n])
  then have c: "tid div 2 ^ n < 1024 div 2 ^ n" by simp
  show ?thesis
    unfolding task_range_unfold NumDigits_pow quot_unat [OF n] rem_unat [OF n]
    by (rule ComputeTaskRange_balanced [OF c])
qed

lemma lane_count_eq:
  assumes n: "n \<le> 10" and c: "c < 1024 div 2 ^ n" and d: "d < 2 ^ n"
  shows "lane_count n g numTasks (c * 2 ^ n + d)
           = (\<Sum>k = range_start (1024 div 2 ^ n) (unat numTasks) c
                 ..<range_start (1024 div 2 ^ n) (unat numTasks) (Suc c). g (2 ^ n * k + d))"
proof -
  have "c * 2 ^ n + d < 1024 div 2 ^ n * 2 ^ n" using c d by (rule column_index_less)
  then have t: "c * 2 ^ n + d < 1024" by (simp only: columns_exact [OF n])
  have p: "(c * 2 ^ n + d) div 2 ^ n = c" "(c * 2 ^ n + d) mod 2 ^ n = d"
    using d by simp_all
  show ?thesis
    unfolding lane_count_def task_range_eq [OF n t] NumDigits_pow lane2_mod p fst_conv snd_conv
    using upsweep_sum [OF d, of g _ _ 0] by simp
qed

lemma SortHist_char:
  fixes numTasks :: uint and n :: nat and g sh tot :: array and tsg :: "array option"
  assumes n1: "0 < n" and n7: "n \<le> 7"
  defines "D \<equiv> 2 ^ n"
  defines "T \<equiv> unat numTasks"
  defines "r \<equiv> SortHist 1024 n g numTasks tsg sh tot"
  shows "\<And>b d. b < T \<Longrightarrow> d < D \<Longrightarrow> blockTotals r (D * b + d) = 4 * exclusive_prefix D T g b d"
    and "\<And>b d. b < T \<Longrightarrow> d < D \<Longrightarrow> unscaled r (D * b + d) = exclusive_prefix D T g b d"
    and "\<And>j. T \<le> j div D \<Longrightarrow> blockTotals r j = g j"
    and "\<And>a d. tsg = Some a \<Longrightarrow> d < D \<Longrightarrow>
           totalsScan r = Some (store 1024 (\<lambda>tid. tid < D) (\<lambda>tid. tid)
                                  (\<lambda>tid. \<Sum>d'<tid. \<Sum>b<T. g (D * b + d')) a)
         \<and> the (totalsScan r) d = (\<Sum>d'<d. \<Sum>b<T. g (D * b + d'))"
proof -
  define C where "C = 1024 div D"
  define rx where "rx = range_start C T"
  define lc where "lc = lane_count n g numTasks"
  define sms where "sms = StridedMultiScan 1024 n lc sh tot"
  define fin where "fin = fold (\<lambda>tid. downsweep n (D * rx (tid div D) + tid mod D)
                                (D * rx (Suc (tid div D))) (fst sms tid)) [0..<1024] (g, \<lambda>i. 0)"
  have n: "n \<le> 10" using n7 by simp
  have D: "0 < D" by (simp add: D_def)
  have CD: "C * D = 1024" using columns_exact [OF n] by (simp add: C_def D_def)
  have C: "0 < C" using CD by (cases C) simp_all
  have mono: "rx c \<le> rx c'" if "c \<le> c'" for c c'
    unfolding rx_def using that by (rule range_start_mono)
  have rx0: "rx 0 = 0" by (simp add: rx_def range_start_0)
  have rxC: "rx C = T" unfolding rx_def using C by (rule range_start_all)
  have fin1: "fold (\<lambda>tid. downsweep n
                     (NumDigits n * fst (task_range 1024 n numTasks tid) + lane2 n tid)
                     (NumDigits n * snd (task_range 1024 n numTasks tid))
                     (fst sms tid)) [0..<1024] (g, \<lambda>i. 0) = fin"
    unfolding fin_def
  proof (rule fold_cong [OF refl refl])
    fix tid assume "tid \<in> set [0..<1024]"
    then have t: "tid < 1024" by simp
    show "downsweep n (NumDigits n * fst (task_range 1024 n numTasks tid) + lane2 n tid)
            (NumDigits n * snd (task_range 1024 n numTasks tid)) (fst sms tid)
          = downsweep n (D * rx (tid div D) + tid mod D) (D * rx (Suc (tid div D))) (fst sms tid)"
      unfolding task_range_eq [OF n t] NumDigits_pow lane2_mod fst_conv snd_conv
      by (simp only: D_def rx_def C_def T_def)
  qed
  have bt: "blockTotals r = fst fin" and us: "unscaled r = snd fin"
    unfolding r_def SortHist_fields fin1 [unfolded sms_def lc_def] by (rule refl)+
  have lcs: "lc (c * D + d) = (\<Sum>k = rx c..<rx (Suc c). g (D * k + d))"
    if "c < C" "d < D" for c d
    unfolding lc_def rx_def C_def D_def T_def
    by (rule lane_count_eq [OF n]) (use that in \<open>simp_all add: C_def D_def\<close>)
  have dt: "digit_total D C lc d = (\<Sum>k<T. g (D * k + d))" if d: "d < D" for d
  proof -
    have "digit_total D C lc d = (\<Sum>c<C. \<Sum>k = rx c..<rx (Suc c). g (D * k + d))"
      unfolding digit_total_def by (rule sum.cong) (use d in \<open>simp_all add: lcs\<close>)
    also have "\<dots> = (\<Sum>k<rx C. g (D * k + d))"
      by (rule telescope) (simp_all add: mono rx0)
    finally show ?thesis by (simp only: rxC)
  qed
  have exc: "fst sms (c * D + d)
               = (\<Sum>d'<d. \<Sum>k<T. g (D * k + d')) + (\<Sum>k<rx c. g (D * k + d))"
    if c: "c < C" and d: "d < D" for c d
  proof -
    have "c * D + d < C * D" using c d by (rule column_index_less)
    then have t: "c * D + d < 1024" by (simp only: CD)
    have p: "(c * D + d) div D = c" "(c * D + d) mod D = d" using d by simp_all
    have "fst sms (c * D + d) = strided_exclusive D C lc (c * D + d)"
      unfolding sms_def D_def C_def by (rule StridedMultiScan_correct(1) [OF n1 n7 t [unfolded D_def]])
    also have "\<dots> = (\<Sum>d'<d. digit_total D C lc d') + (\<Sum>c'<c. lc (c' * D + d))"
      by (simp only: strided_exclusive_def p)
    also have "(\<Sum>d'<d. digit_total D C lc d') = (\<Sum>d'<d. \<Sum>k<T. g (D * k + d'))"
      by (rule sum.cong) (use d in \<open>simp_all add: dt\<close>)
    also have "(\<Sum>c'<c. lc (c' * D + d)) = (\<Sum>c'<c. \<Sum>k = rx c'..<rx (Suc c'). g (D * k + d))"
      by (rule sum.cong) (use c d in \<open>simp_all add: lcs\<close>)
    also have "\<dots> = (\<Sum>k<rx c. g (D * k + d))"
      by (rule telescope) (simp_all add: mono rx0)
    finally show ?thesis .
  qed
  have tf: "(\<forall>j. (\<forall>t<1024. \<not> owns D rx t j) \<longrightarrow> fst fin j = g j \<and> snd fin j = 0)
       \<and> (\<forall>t<1024. \<forall>j. owns D rx t j \<longrightarrow>
             fst fin j = 4 * sweep_val D g (t mod D) (rx (t div D)) (fst sms t) (j div D)
           \<and> snd fin j = sweep_val D g (t mod D) (rx (t div D)) (fst sms t) (j div D))"
    unfolding fin_def D_def by (rule threads_fold) (rule mono, assumption)
  have slot: "fst fin (D * b + d) = 4 * exclusive_prefix D T g b d
            \<and> snd fin (D * b + d) = exclusive_prefix D T g b d"
    if b: "b < T" and d: "d < D" for b d
  proof -
    obtain c where c: "c < C" "rx c \<le> b" "b < rx (Suc c)"
      using column_exists [of rx b C] rx0 rxC b by auto
    define t where "t = c * D + d"
    have "t < C * D" unfolding t_def using c(1) d by (rule column_index_less)
    then have t: "t < 1024" by (simp only: CD)
    have tp: "t div D = c" "t mod D = d" using d by (simp_all add: t_def)
    have jp: "(D * b + d) div D = b" "(D * b + d) mod D = d" using slot_parts [OF d, of b] by simp_all
    have o: "owns D rx t (D * b + d)" using c by (simp only: owns_def tp jp simp_thms)
    have "rx c \<le> b" by (rule c(2))
    then have cat: "(\<Sum>k<rx c. g (D * k + d)) + (\<Sum>k = rx c..<b. g (D * k + d)) = (\<Sum>k<b. g (D * k + d))"
      using sum.atLeastLessThan_concat [of 0 "rx c" b "\<lambda>k. g (D * k + d)"]
      by (simp add: lessThan_atLeast0)
    have "sweep_val D g d (rx c) (fst sms t) b
            = (\<Sum>d'<d. \<Sum>k<T. g (D * k + d')) + ((\<Sum>k<rx c. g (D * k + d)) + (\<Sum>k = rx c..<b. g (D * k + d)))"
      unfolding sweep_val_def t_def exc [OF c(1) d] by (simp only: add.assoc)
    then have sv: "sweep_val D g d (rx c) (fst sms t) b = exclusive_prefix D T g b d"
      by (simp only: cat exclusive_prefix_def)
    show ?thesis
      using tf [THEN conjunct2, rule_format, OF t o] by (simp only: tp jp sv)
  qed
  show "blockTotals r (D * b + d) = 4 * exclusive_prefix D T g b d" if "b < T" "d < D" for b d
    unfolding bt using slot [OF that] by (rule conjunct1)
  show "unscaled r (D * b + d) = exclusive_prefix D T g b d" if "b < T" "d < D" for b d
    unfolding us using slot [OF that] by (rule conjunct2)
  show "blockTotals r j = g j" if j: "T \<le> j div D" for j
  proof -
    have "\<not> owns D rx t j" if "t < 1024" for t
    proof
      assume o: "owns D rx t j"
      have "t div D * D \<le> t" by simp
      then have "t div D * D < 1024" using that by (rule le_less_trans)
      then have "t div D * D < C * D" by (simp only: CD)
      then have "Suc (t div D) \<le> C" by simp
      then have "rx (Suc (t div D)) \<le> rx C" by (rule mono)
      then show False using o j rxC by (simp add: owns_def)
    qed
    then show ?thesis
      unfolding bt using tf [THEN conjunct1, rule_format, of j] by simp
  qed
  show "totalsScan r = Some (store 1024 (\<lambda>tid. tid < D) (\<lambda>tid. tid)
                                  (\<lambda>tid. \<Sum>d'<tid. \<Sum>b<T. g (D * b + d')) a)
         \<and> the (totalsScan r) d = (\<Sum>d'<d. \<Sum>b<T. g (D * b + d'))"
    if a: "tsg = Some a" and d: "d < D" for a d
  proof -
    have "(2::nat) ^ n \<le> 2 ^ 7" using n7 by (rule power_increasing) simp
    then have D1024: "D \<le> 1024" by (simp add: D_def)
    have tot: "snd (snd sms) (e + e div 32) = (\<Sum>d'<e. \<Sum>b<T. g (D * b + d'))" if e: "e < D" for e
    proof -
      have "snd (snd sms) (e + e div 32) = (\<Sum>d'<e. digit_total D C lc d')"
        unfolding sms_def D_def C_def
        by (rule StridedMultiScan_correct(2) [OF n1 n7 e [unfolded D_def]])
      also have "\<dots> = (\<Sum>d'<e. \<Sum>b<T. g (D * b + d'))"
        by (rule sum.cong) (use e in \<open>simp_all add: dt\<close>)
      finally show ?thesis .
    qed
    have st: "store 1024 (\<lambda>tid. tid < D) (\<lambda>tid. tid)
                (\<lambda>tid. snd (snd sms) (tid + tid div 32)) a
              = store 1024 (\<lambda>tid. tid < D) (\<lambda>tid. tid)
                  (\<lambda>tid. \<Sum>d'<tid. \<Sum>b<T. g (D * b + d')) a"
    proof (rule ext)
      fix j
      show "store 1024 (\<lambda>tid. tid < D) (\<lambda>tid. tid) (\<lambda>tid. snd (snd sms) (tid + tid div 32)) a j
            = store 1024 (\<lambda>tid. tid < D) (\<lambda>tid. tid)
                (\<lambda>tid. \<Sum>d'<tid. \<Sum>b<T. g (D * b + d')) a j"
        by (simp add: store_id_below tot)
    qed
    have ts: "totalsScan r = Some (store 1024 (\<lambda>tid. tid < D) (\<lambda>tid. tid)
                (\<lambda>tid. snd (snd sms) (tid + tid div 32)) a)"
      unfolding r_def SortHist_fields a
      by (simp add: sms_def lc_def NumDigits_pow D_def WARP_SIZE_def)
    show ?thesis
      unfolding ts st using d D1024 by (simp add: store_id_below)
  qed
qed

lemma task_range_column:
  "task_range 1024 n numTasks tid = column_range n numTasks (tid div NumDigits n)"
  by (simp add: column_range_def task_range_def Let_def NumDigits_pow)

lemma column_range_eq:
  assumes n: "n \<le> 10" and c: "col < 1024 div 2 ^ n"
  shows "column_range n numTasks col
           = (range_start (1024 div 2 ^ n) (unat numTasks) col,
              range_start (1024 div 2 ^ n) (unat numTasks) (Suc col))"
proof -
  have "col * 2 ^ n + 0 < 1024 div 2 ^ n * 2 ^ n"
    using c by (rule column_index_less) simp
  then have t: "col * 2 ^ n < 1024" by (simp add: columns_exact [OF n])
  show ?thesis
    unfolding column_range_def NumDigits_pow task_range_eq [OF n t] by simp
qed

lemma range_lengths_sum:
  fixes rx :: "nat \<Rightarrow> nat"
  assumes "\<And>c. rx c \<le> rx (Suc c)"
  shows "(\<Sum>c<m. rx (Suc c) - rx c) = rx m - rx 0"
proof (induction m)
  case 0
  show ?case by simp
next
  case (Suc m)
  have "rx 0 \<le> rx m" by (rule lift_Suc_mono_le [of rx]) (simp_all add: assms)
  then show ?case using Suc assms [of m] by simp
qed

text \<open>
  Claim C6. For every task count and each of the instantiated column counts, the
  split of the block counts over the columns of threads is balanced.
\<close>

theorem task_range_balanced:
  fixes numTasks :: uint
  assumes "1 \<le> NumBits" and "NumBits \<le> 7"
  shows "(let columns = 1024 div NumDigits NumBits;
              quot = unat (numTasks div of_nat columns);
              rem = unat (of_nat (columns - 1) AND numTasks);
              range = column_range NumBits numTasks
          in quot = unat numTasks div columns
           \<and> rem = unat numTasks mod columns
           \<and> (\<forall>tid<1024. task_range 1024 NumBits numTasks tid = range (tid div NumDigits NumBits))
           \<and> fst (range 0) = 0
           \<and> (\<forall>col. Suc col < columns \<longrightarrow> fst (range (Suc col)) = snd (range col))
           \<and> snd (range (columns - 1)) = unat numTasks
           \<and> (\<forall>col<columns. fst (range col) \<le> snd (range col)
                 \<and> range_length (range col) = quot + (if col < rem then 1 else 0))
           \<and> (\<Sum>col<columns. range_length (range col)) = unat numTasks
           \<and> (\<forall>col<columns. \<forall>col'<columns.
                 range_length (range col) \<le> range_length (range col') + 1))"
proof -
  define C where "C = 1024 div (2::nat) ^ NumBits"
  define T where "T = unat numTasks"
  define rx where "rx = range_start C T"
  have n: "NumBits \<le> 10" using assms(2) by simp
  have CD: "C * 2 ^ NumBits = 1024" using columns_exact [OF n] by (simp add: C_def)
  have C: "0 < C" using CD by (cases C) simp_all
  have q: "unat (numTasks div of_nat C) = T div C"
    unfolding C_def T_def by (rule quot_unat [OF n])
  have r: "unat (of_nat (C - 1) AND numTasks) = T mod C"
    unfolding C_def T_def by (rule rem_unat [OF n])
  have cr: "column_range NumBits numTasks col = (rx col, rx (Suc col))" if "col < C" for col
    unfolding rx_def C_def T_def by (rule column_range_eq [OF n that [unfolded C_def]])
  have mono: "rx c \<le> rx (Suc c)" for c
    unfolding rx_def by (rule range_start_mono_Suc)
  have len: "range_length (column_range NumBits numTasks col)
               = T div C + (if col < T mod C then 1 else 0)" if "col < C" for col
    using mono [of col] by (simp add: cr [OF that] range_length_def rx_def range_start_Suc)
  have a: "fst (column_range NumBits numTasks 0) = 0"
    using cr [OF C] by (simp add: rx_def range_start_0)
  have b: "fst (column_range NumBits numTasks (Suc col)) = snd (column_range NumBits numTasks col)"
    if "Suc col < C" for col
    using that cr [of col] cr [of "Suc col"] by simp
  have c: "snd (column_range NumBits numTasks (C - 1)) = T"
    using C cr [of "C - 1"] range_start_all [OF C, of T] by (simp add: rx_def)
  have d: "fst (column_range NumBits numTasks col) \<le> snd (column_range NumBits numTasks col)"
    if "col < C" for col
    using mono [of col] by (simp add: cr [OF that])
  have "(\<Sum>col<C. range_length (column_range NumBits numTasks col)) = (\<Sum>col<C. rx (Suc col) - rx col)"
    by (rule sum.cong) (simp_all add: cr range_length_def)
  also have "\<dots> = rx C - rx 0" by (rule range_lengths_sum) (rule mono)
  also have "\<dots> = T" using range_start_all [OF C, of T] by (simp add: rx_def range_start_0)
  finally have e: "(\<Sum>col<C. range_length (column_range NumBits numTasks col)) = T" .
  have f: "range_length (column_range NumBits numTasks col)
             \<le> range_length (column_range NumBits numTasks col') + 1"
    if "col < C" "col' < C" for col col'
    by (simp add: len that)
  show ?thesis
    unfolding Let_def NumDigits_pow C_def [symmetric] T_def [symmetric] q r
    using a b c d e f len by (simp add: task_range_column NumDigits_pow)
qed

theorem task_range_balanced_witness:
  "(1::nat) \<le> 1 \<and> (1::nat) \<le> 7
   \<and> fst (column_range 1 4 0) = 0
   \<and> snd (column_range 1 4 511) = 4
   \<and> (\<Sum>col<512. range_length (column_range 1 4 col)) = 4"
proof -
  have h: "(1::nat) \<le> 1" "(1::nat) \<le> 7" by simp_all
  note t = task_range_balanced [OF h, of 4, unfolded Let_def]
  have "fst (column_range 1 4 0) = 0"
    using t by blast
  moreover have "snd (column_range 1 4 (1024 div NumDigits 1 - 1)) = unat (4::uint)"
    using t by blast
  moreover have "(\<Sum>col<1024 div NumDigits 1. range_length (column_range 1 4 col)) = unat (4::uint)"
    using t by blast
  ultimately show ?thesis by (simp add: NumDigits_pow)
qed

lemma exclusive_prefix_0: "exclusive_prefix D T g 0 0 = 0"
  by (simp add: exclusive_prefix_def)

lemma exclusive_prefix_block:
  "exclusive_prefix D T g (Suc b) d = exclusive_prefix D T g b d + g (D * b + d)"
  by (simp add: exclusive_prefix_def)

lemma exclusive_prefix_digit:
  "exclusive_prefix D (Suc b) g 0 (Suc d) = exclusive_prefix D (Suc b) g b d + g (D * b + d)"
  by (simp add: exclusive_prefix_def)

lemma exclusive_prefix_slot:
  assumes "0 < T"
  shows "exclusive_prefix D T g (k mod T) (k div T) = (\<Sum>k'<k. g (slot D T k'))"
proof (induction k)
  case 0
  show ?case by (simp add: exclusive_prefix_0)
next
  case (Suc k)
  obtain b where T: "T = Suc b" using assms by (cases T) simp_all
  show ?case
  proof (cases "Suc (k mod T) = T")
    case True
    then have m: "k mod T = b" using T by simp
    have "Suc k mod T = 0" "Suc k div T = Suc (k div T)"
      using True by (simp_all add: mod_Suc div_Suc)
    then have "exclusive_prefix D T g (Suc k mod T) (Suc k div T)
                 = exclusive_prefix D (Suc b) g 0 (Suc (k div T))"
      by (simp add: T)
    also have "\<dots> = exclusive_prefix D (Suc b) g b (k div T) + g (D * b + k div T)"
      by (rule exclusive_prefix_digit)
    also have "\<dots> = exclusive_prefix D T g (k mod T) (k div T) + g (slot D T k)"
      by (simp add: m slot_def T [symmetric])
    finally show ?thesis using Suc by simp
  next
    case False
    then have "Suc k mod T = Suc (k mod T)" "Suc k div T = k div T"
      by (simp_all add: mod_Suc div_Suc)
    then have "exclusive_prefix D T g (Suc k mod T) (Suc k div T)
                 = exclusive_prefix D T g (k mod T) (k div T) + g (D * (k mod T) + k div T)"
      by (simp add: exclusive_prefix_block)
    then show ?thesis using Suc by (simp add: slot_def)
  qed
qed

lemma slot_bounds:
  fixes k D T :: nat
  assumes "k < D * T"
  shows "k mod T < T" and "k div T < D"
proof -
  have T: "0 < T" using assms by (cases T) simp_all
  then show "k mod T < T" by simp
  have "k < T * D" using assms by (simp add: mult.commute)
  then show "k div T < D" using T by (simp add: div_less_iff_less_mult mult.commute)
qed

lemma SortHist_slot:
  fixes numTasks :: uint and n :: nat and g sh tot :: array and tsg :: "array option"
  assumes n1: "0 < n" and n7: "n \<le> 7" and k: "k < 2 ^ n * unat numTasks"
  shows "unscaled (SortHist 1024 n g numTasks tsg sh tot) (slot (2 ^ n) (unat numTasks) k)
           = (\<Sum>k'<k. g (slot (2 ^ n) (unat numTasks) k'))"
    and "blockTotals (SortHist 1024 n g numTasks tsg sh tot) (slot (2 ^ n) (unat numTasks) k)
           = 4 * (\<Sum>k'<k. g (slot (2 ^ n) (unat numTasks) k'))"
proof -
  have T: "0 < unat numTasks" using k by (cases "unat numTasks") simp_all
  note b = slot_bounds [OF k]
  show "unscaled (SortHist 1024 n g numTasks tsg sh tot) (slot (2 ^ n) (unat numTasks) k)
           = (\<Sum>k'<k. g (slot (2 ^ n) (unat numTasks) k'))"
    unfolding slot_def [of _ _ k] SortHist_char(2) [OF n1 n7 b]
    by (rule exclusive_prefix_slot [OF T])
  show "blockTotals (SortHist 1024 n g numTasks tsg sh tot) (slot (2 ^ n) (unat numTasks) k)
           = 4 * (\<Sum>k'<k. g (slot (2 ^ n) (unat numTasks) k'))"
    unfolding slot_def [of _ _ k] SortHist_char(1) [OF n1 n7 b]
    by (simp only: exclusive_prefix_slot [OF T])
qed

lemma slot_block_digit:
  assumes "b < T"
  shows "slot D T (d * T + b) = D * b + d"
  using assms by (simp add: slot_def)

lemma upto1: "{..<1::nat} = {0}"
  by auto

lemma upto5: "{..<5::nat} = {0, 1, 2, 3, 4}"
  by auto

text \<open>
  Claim C2. Every value written back is 4 times the exclusive prefix sum of the original
  counts at that slot, in the order of the scan (digit-major, then block-major); it is
  4 times the running offset \<open>laneExc\<close> at the moment of the write, and the next running
  offset is the previous one plus the original count, not plus the scaled value. What
  lies behind the counts of the last block is not written.
\<close>

theorem SortHist_scaled_offsets:
  fixes numTasks :: uint and counts sh tot :: array and tsg :: "array option"
  assumes "1 \<le> NumBits" and "NumBits \<le> 7" and "NumDigits NumBits * unat numTasks < 2 ^ 31"
  shows "(let D = NumDigits NumBits; T = unat numTasks;
              r = SortHist 1024 NumBits counts numTasks tsg sh tot
          in (\<forall>k<D * T.
                blockTotals r (slot D T k) = 4 * (\<Sum>k'<k. counts (slot D T k'))
              \<and> blockTotals r (slot D T k) = 4 * unscaled r (slot D T k)
              \<and> (Suc k < D * T \<longrightarrow>
                   blockTotals r (slot D T (Suc k))
                     = 4 * (unscaled r (slot D T k) + counts (slot D T k))))
           \<and> (\<forall>j. T \<le> j div D \<longrightarrow> blockTotals r j = counts j))"
proof -
  define T where "T = unat numTasks"
  define r where "r = SortHist 1024 NumBits counts numTasks tsg sh tot"
  have n: "0 < NumBits" using assms(1) by simp
  note n7 = assms(2)
  have u: "unscaled r (slot (2 ^ NumBits) T k) = (\<Sum>k'<k. counts (slot (2 ^ NumBits) T k'))"
    if "k < 2 ^ NumBits * T" for k
    unfolding r_def T_def by (rule SortHist_slot(1) [OF n n7 that [unfolded T_def]])
  have b: "blockTotals r (slot (2 ^ NumBits) T k) = 4 * (\<Sum>k'<k. counts (slot (2 ^ NumBits) T k'))"
    if "k < 2 ^ NumBits * T" for k
    unfolding r_def T_def by (rule SortHist_slot(2) [OF n n7 that [unfolded T_def]])
  have s: "blockTotals r (slot (2 ^ NumBits) T (Suc k))
             = 4 * (unscaled r (slot (2 ^ NumBits) T k) + counts (slot (2 ^ NumBits) T k))"
    if "Suc k < 2 ^ NumBits * T" for k
  proof -
    have "k < 2 ^ NumBits * T" using that by simp
    then show ?thesis by (simp add: b [OF that] u)
  qed
  have o: "blockTotals r j = counts j" if "T \<le> j div 2 ^ NumBits" for j
    unfolding r_def by (rule SortHist_char(3) [OF n n7 that [unfolded T_def]])
  show ?thesis
    unfolding Let_def NumDigits_pow T_def [symmetric] r_def [symmetric]
    using u b s o by simp
qed

theorem SortHist_scaled_offsets_witness:
  "(1::nat) \<le> 1 \<and> (1::nat) \<le> 7 \<and> NumDigits 1 * unat (4::uint) < 2 ^ 31
   \<and> blockTotals (SortHist_1 example_counts 4 None idle idle) 3 = 40
   \<and> blockTotals (SortHist_1 example_counts 4 None idle idle) 3
       = 4 * unscaled (SortHist_1 example_counts 4 None idle idle) 3
   \<and> blockTotals (SortHist_1 example_counts 4 None idle idle) 5
       = 4 * (unscaled (SortHist_1 example_counts 4 None idle idle) 3 + 5)"
proof -
  have h: "(1::nat) \<le> 1" "(1::nat) \<le> 7" "NumDigits 1 * unat (4::uint) < 2 ^ 31"
    by (simp_all add: NumDigits_pow)
  have k: "(5::nat) < NumDigits 1 * unat (4::uint)" by (simp add: NumDigits_pow)
  have k': "Suc 5 < NumDigits 1 * unat (4::uint)" by (simp add: NumDigits_pow)
  note t = SortHist_scaled_offsets [OF h, of example_counts None idle idle, unfolded Let_def,
      THEN conjunct1, rule_format, OF k]
  have s: "slot (NumDigits 1) (unat (4::uint)) 5 = 3" "slot (NumDigits 1) (unat (4::uint)) (Suc 5) = 5"
    by (simp_all add: slot_def NumDigits_pow)
  have c: "(\<Sum>k'<5. example_counts (slot (NumDigits 1) (unat (4::uint)) k')) = 10"
    "example_counts 3 = 5"
    by (simp_all add: upto5 slot_def example_counts_def NumDigits_pow)
  let ?r = "SortHist_1 example_counts 4 None idle idle"
  have "blockTotals ?r 3 = 40"
    using t [THEN conjunct1] unfolding s c SortHist_1_def by simp
  moreover have "blockTotals ?r 3 = 4 * unscaled ?r 3"
    using t [THEN conjunct2, THEN conjunct1] unfolding s SortHist_1_def .
  moreover have "blockTotals ?r 5 = 4 * (unscaled ?r 3 + 5)"
    using t [THEN conjunct2, THEN conjunct2, rule_format, OF k'] unfolding s c SortHist_1_def .
  ultimately show ?thesis using h by blast
qed

lemma word_sum_of_nat:
  fixes f :: "nat \<Rightarrow> uint"
  shows "(\<Sum>k<n. f k) = of_nat (\<Sum>k<n. unat (f k))"
  by (simp add: of_nat_sum)

lemma unat_sum_mod:
  fixes f :: "nat \<Rightarrow> uint"
  shows "unat (\<Sum>k<n. f k) = (\<Sum>k<n. unat (f k)) mod 2 ^ 32"
proof -
  have a: "unat (\<Sum>k<n. f k) = unat (of_nat (\<Sum>k<n. unat (f k)) :: uint)"
    by (rule arg_cong [of _ _ unat]) (rule word_sum_of_nat)
  have b: "unat (of_nat (\<Sum>k<n. unat (f k)) :: uint) = (\<Sum>k<n. unat (f k)) mod 2 ^ 32"
    by (simp only: unat_of_nat) simp
  show ?thesis by (simp only: a b)
qed

lemma unat_sum:
  fixes f :: "nat \<Rightarrow> uint"
  assumes "(\<Sum>k<n. unat (f k)) < 2 ^ 32"
  shows "unat (\<Sum>k<n. f k) = (\<Sum>k<n. unat (f k))"
  using assms by (simp add: unat_sum_mod)

lemma unat_times4:
  fixes x :: uint
  shows "unat (4 * x) = (4 * unat x) mod 2 ^ 32"
  by (simp add: unat_word_ariths)

lemma prefix_mono:
  fixes len :: "nat \<Rightarrow> nat"
  assumes "k \<le> k'"
  shows "(\<Sum>i<k. len i) \<le> (\<Sum>i<k'. len i)"
  by (rule sum_mono2) (use assms in auto)

lemma prefix_partition:
  fixes len :: "nat \<Rightarrow> nat"
  assumes "x < (\<Sum>i<m. len i)"
  shows "\<exists>!k. k < m \<and> (\<Sum>i<k. len i) \<le> x \<and> x < (\<Sum>i<k. len i) + len k"
proof (rule ex_ex1I)
  show "\<exists>k. k < m \<and> (\<Sum>i<k. len i) \<le> x \<and> x < (\<Sum>i<k. len i) + len k"
    using assms
  proof (induction m)
    case 0
    then show ?case by simp
  next
    case (Suc m)
    show ?case
    proof (cases "x < (\<Sum>i<m. len i)")
      case True
      then obtain k where "k < m \<and> (\<Sum>i<k. len i) \<le> x \<and> x < (\<Sum>i<k. len i) + len k"
        using Suc.IH by blast
      then have "k < Suc m \<and> (\<Sum>i<k. len i) \<le> x \<and> x < (\<Sum>i<k. len i) + len k" by simp
      then show ?thesis ..
    next
      case False
      then have "m < Suc m \<and> (\<Sum>i<m. len i) \<le> x \<and> x < (\<Sum>i<m. len i) + len m"
        using Suc.prems by simp
      then show ?thesis ..
    qed
  qed
next
  fix k k'
  assume k: "k < m \<and> (\<Sum>i<k. len i) \<le> x \<and> x < (\<Sum>i<k. len i) + len k"
    and k': "k' < m \<and> (\<Sum>i<k'. len i) \<le> x \<and> x < (\<Sum>i<k'. len i) + len k'"
  have a: False if "a < b" "x < (\<Sum>i<a. len i) + len a" "(\<Sum>i<b. len i) \<le> x" for a b
  proof -
    have "Suc a \<le> b" using that(1) by simp
    then have "(\<Sum>i<Suc a. len i) \<le> (\<Sum>i<b. len i)" by (rule prefix_mono)
    then show False using that(2,3) by simp
  qed
  show "k = k'"
  proof (rule ccontr)
    assume "k \<noteq> k'"
    then consider "k < k'" | "k' < k" by linarith
    then show False
    proof cases
      case 1
      then show False using a [of k k'] k k' by blast
    next
      case 2
      then show False using a [of k' k] k k' by blast
    qed
  qed
qed

lemma partitions_prefix:
  assumes "\<And>k. k < m \<Longrightarrow> off k = (\<Sum>i<k. len i)"
  shows "partitions m off len (\<Sum>i<m. len i)"
  unfolding partitions_def
proof (intro conjI allI impI)
  fix k
  assume k: "k < m"
  then have "Suc k \<le> m" by simp
  then have "(\<Sum>i<Suc k. len i) \<le> (\<Sum>i<m. len i)" by (rule prefix_mono)
  then show "off k + len k \<le> (\<Sum>i<m. len i)" by (simp add: assms [OF k])
next
  fix x
  assume x: "x < (\<Sum>i<m. len i)"
  have "(k < m \<and> off k \<le> x \<and> x < off k + len k)
          = (k < m \<and> (\<Sum>i<k. len i) \<le> x \<and> x < (\<Sum>i<k. len i) + len k)" for k
    by (cases "k < m") (simp_all add: assms)
  then show "\<exists>!k. k < m \<and> off k \<le> x \<and> x < off k + len k"
    using prefix_partition [OF x] by simp
qed

lemma upto2: "{..<2::nat} = {0, 1}"
  by auto

lemma upto8: "{..<8::nat} = {0, 1, 2, 3, 4, 5, 6, 7}"
  by auto

text \<open>
  Claim C1, as stated: for every array of counts the unscaled offsets partition the
  positions below the sum of the counts without overlap. It fails when the sum does not
  fit 32 bits. For the counts \<open>2 ^ 32 - 1\<close>, 2 of digit 0 and 1, 3 of digit 1, position 1 is
  in the interval of block 0 and digit 0, element 0 of the array, and in the interval
  of block 0 and digit 1, element 1: the offset of the latter has wrapped, and read as
  natural numbers it is not the offset before it, of element 2, plus the count there.
\<close>

theorem SortHist_offsets_partition_counterexample:
  "unat (unscaled (SortHist_1 overflow_counts 2 None idle idle) 0) \<le> 1
   \<and> 1 < unat (unscaled (SortHist_1 overflow_counts 2 None idle idle) 0) + unat (overflow_counts 0)
   \<and> unat (unscaled (SortHist_1 overflow_counts 2 None idle idle) 1) \<le> 1
   \<and> 1 < unat (unscaled (SortHist_1 overflow_counts 2 None idle idle) 1) + unat (overflow_counts 1)
   \<and> unat (unscaled (SortHist_1 overflow_counts 2 None idle idle) 1)
       \<noteq> unat (unscaled (SortHist_1 overflow_counts 2 None idle idle) 2) + unat (overflow_counts 2)"
proof -
  let ?r = "SortHist 1024 1 overflow_counts 2 None idle idle"
  have u: "unscaled ?r (slot (2 ^ 1) (unat (2::uint)) k)
             = (\<Sum>k'<k. overflow_counts (slot (2 ^ 1) (unat (2::uint)) k'))" if "k < 4" for k
    by (rule SortHist_slot(1)) (use that in simp_all)
  have "unat (unscaled ?r 0) = 0"
    using u [of 0] by (simp add: slot_def)
  moreover have "unat (unscaled ?r 2) = 4294967295"
    using u [of 1] by (simp add: slot_def upto1 overflow_counts_def)
  moreover have "unat (unscaled ?r 1) = 1"
    using u [of 2] by (simp add: slot_def upto2 overflow_counts_def)
  ultimately show ?thesis by (simp add: SortHist_1_def overflow_counts_def)
qed

text \<open>
  Claim C1, amended. The array holds the counts of a block in \<open>NumDigits\<close> consecutive
  elements. For at least one block, the running offsets \<open>laneExc\<close> of the slots, taken in
  the order of the scan (digit-major, then block-major), start at 0, and each next one
  is the previous one plus the count that was in the previous slot; the last offset
  plus the last count is the sum of all counts. These are equations of 32-bit unsigned
  arithmetic. As long as the sum of the counts is below \<open>2 ^ 32\<close>, the offsets and the
  counts, read as natural numbers, partition the positions below that sum. The value
  written back to a slot is 4 times its running offset.
\<close>

theorem SortHist_offsets_partition:
  fixes numTasks :: uint and counts sh tot :: array and tsg :: "array option"
  assumes "1 \<le> NumBits" and "NumBits \<le> 7" and "1 \<le> unat numTasks"
    and "NumDigits NumBits * unat numTasks < 2 ^ 31"
  shows "(let D = NumDigits NumBits; T = unat numTasks; m = D * T;
              r = SortHist 1024 NumBits counts numTasks tsg sh tot;
              off = (\<lambda>k. unscaled r (slot D T k));
              cnt = (\<lambda>k. counts (slot D T k))
          in off 0 = 0
           \<and> (\<forall>k. Suc k < m \<longrightarrow> off (Suc k) = off k + cnt k)
           \<and> off (m - 1) + cnt (m - 1) = (\<Sum>k<m. cnt k)
           \<and> ((\<Sum>k<m. unat (cnt k)) < 2 ^ 32 \<longrightarrow>
                partitions m (\<lambda>k. unat (off k)) (\<lambda>k. unat (cnt k)) (\<Sum>k<m. unat (cnt k)))
           \<and> (\<forall>k<m. blockTotals r (slot D T k) = 4 * off k))"
proof -
  define T where "T = unat numTasks"
  define m where "m = 2 ^ NumBits * T"
  define r where "r = SortHist 1024 NumBits counts numTasks tsg sh tot"
  define off where "off = (\<lambda>k. unscaled r (slot (2 ^ NumBits) T k))"
  define cnt where "cnt = (\<lambda>k. counts (slot (2 ^ NumBits) T k))"
  have n: "0 < NumBits" using assms(1) by simp
  note n7 = assms(2)
  have m: "0 < m" using assms(3) by (simp add: m_def T_def)
  have p: "off k = (\<Sum>k'<k. cnt k')" if "k < m" for k
    unfolding off_def cnt_def r_def T_def
    by (rule SortHist_slot(1) [OF n n7 that [unfolded m_def T_def]])
  have q: "blockTotals r (slot (2 ^ NumBits) T k) = 4 * (\<Sum>k'<k. cnt k')" if "k < m" for k
    unfolding cnt_def r_def T_def
    by (rule SortHist_slot(2) [OF n n7 that [unfolded m_def T_def]])
  have a: "off 0 = 0" using p [OF m] by simp
  have b: "off (Suc k) = off k + cnt k" if "Suc k < m" for k
  proof -
    have "k < m" using that by simp
    then show ?thesis by (simp add: p [OF that] p)
  qed
  have c: "off (m - 1) + cnt (m - 1) = (\<Sum>k<m. cnt k)"
  proof -
    obtain j where j: "m = Suc j" using m by (cases m) simp_all
    have "off j + cnt j = (\<Sum>k<Suc j. cnt k)" using p [of j] j by simp
    then show ?thesis by (simp add: j)
  qed
  have d: "partitions m (\<lambda>k. unat (off k)) (\<lambda>k. unat (cnt k)) (\<Sum>k<m. unat (cnt k))"
    if s: "(\<Sum>k<m. unat (cnt k)) < 2 ^ 32"
  proof (rule partitions_prefix)
    fix k
    assume k: "k < m"
    then have "k \<le> m" by simp
    then have "(\<Sum>i<k. unat (cnt i)) \<le> (\<Sum>i<m. unat (cnt i))" by (rule prefix_mono)
    then have "(\<Sum>i<k. unat (cnt i)) < 2 ^ 32" using s by (rule le_less_trans)
    then have "unat (\<Sum>i<k. cnt i) = (\<Sum>i<k. unat (cnt i))" by (rule unat_sum)
    then show "unat (off k) = (\<Sum>i<k. unat (cnt i))" by (simp only: p [OF k])
  qed
  have e: "blockTotals r (slot (2 ^ NumBits) T k) = 4 * off k" if "k < m" for k
    by (simp only: q [OF that] p [OF that])
  show ?thesis
    unfolding Let_def NumDigits_pow T_def [symmetric] m_def [symmetric] r_def [symmetric]
    using a b c d e unfolding off_def cnt_def by simp
qed

theorem SortHist_offsets_partition_witness:
  "(1::nat) \<le> 1 \<and> (1::nat) \<le> 7 \<and> 1 \<le> unat (4::uint) \<and> NumDigits 1 * unat (4::uint) < 2 ^ 31
   \<and> (\<Sum>k<8. unat (example_counts (slot 2 4 k))) < 2 ^ 32
   \<and> unscaled (SortHist_1 example_counts 4 None idle idle) 0 = 0
   \<and> unscaled (SortHist_1 example_counts 4 None idle idle) 2
       = unscaled (SortHist_1 example_counts 4 None idle idle) 0 + 3
   \<and> unscaled (SortHist_1 example_counts 4 None idle idle) 7 + 2 = 26
   \<and> unat (unscaled (SortHist_1 example_counts 4 None idle idle) 2) + 1 \<le> 26
   \<and> blockTotals (SortHist_1 example_counts 4 None idle idle) 2
       = 4 * unscaled (SortHist_1 example_counts 4 None idle idle) 2"
proof -
  let ?r = "SortHist_1 example_counts 4 None idle idle"
  have h: "(1::nat) \<le> 1" "(1::nat) \<le> 7" "1 \<le> unat (4::uint)"
    "NumDigits 1 * unat (4::uint) < 2 ^ 31"
    by (simp_all add: NumDigits_pow)
  note t = SortHist_offsets_partition [OF h, of example_counts None idle idle, unfolded Let_def]
  have s: "(\<Sum>k<8. unat (example_counts (slot 2 4 k))) = 26"
    by (simp add: upto8 slot_def example_counts_def)
  have a: "unscaled ?r 0 = 0"
    using t [THEN conjunct1] by (simp add: NumDigits_pow slot_def SortHist_1_def)
  have b: "unscaled ?r 2 = unscaled ?r 0 + 3"
    using t [THEN conjunct2, THEN conjunct1, rule_format, of 0]
    by (simp add: NumDigits_pow slot_def SortHist_1_def example_counts_def)
  have c: "unscaled ?r 7 + 2 = 26"
    using t [THEN conjunct2, THEN conjunct2, THEN conjunct1]
    by (simp add: NumDigits_pow slot_def SortHist_1_def example_counts_def upto8)
  have "partitions 8 (\<lambda>k. unat (unscaled ?r (slot 2 4 k)))
          (\<lambda>k. unat (example_counts (slot 2 4 k))) 26"
    using t [THEN conjunct2, THEN conjunct2, THEN conjunct2, THEN conjunct1] s
    by (simp add: NumDigits_pow SortHist_1_def)
  then have "unat (unscaled ?r (slot 2 4 1)) + unat (example_counts (slot 2 4 1)) \<le> 26"
    unfolding partitions_def by simp
  then have d: "unat (unscaled ?r 2) + 1 \<le> 26"
    by (simp add: slot_def example_counts_def)
  have e: "blockTotals ?r 2 = 4 * unscaled ?r 2"
    using t [THEN conjunct2, THEN conjunct2, THEN conjunct2, THEN conjunct2, rule_format, of 1]
    by (simp add: NumDigits_pow slot_def SortHist_1_def)
  show ?thesis using h s a b c d e by simp
qed

text \<open>
  Claim C10, as stated: the offsets are right in natural-number arithmetic only when 4
  times the sum of the counts is below \<open>2 ^ 32\<close>. It fails for one block that counted 1
  key of digit 0 and \<open>2 ^ 30\<close> keys of digit 1: 4 times the sum does not fit 32 bits, and
  yet nothing wraps. Read as natural numbers, the first offset is 0, the second is the
  first plus the first count, the second plus the second count is the sum, and the
  written values are 4 times the offsets.
\<close>

theorem SortHist_wraps_modulo_counterexample:
  "\<not> 4 * (unat (late_counts 0) + unat (late_counts 1)) < 2 ^ 32
   \<and> unat (unscaled (SortHist_1 late_counts 1 None idle idle) 0) = 0
   \<and> unat (unscaled (SortHist_1 late_counts 1 None idle idle) 1)
       = unat (unscaled (SortHist_1 late_counts 1 None idle idle) 0) + unat (late_counts 0)
   \<and> unat (unscaled (SortHist_1 late_counts 1 None idle idle) 1) + unat (late_counts 1)
       = unat (late_counts 0) + unat (late_counts 1)
   \<and> unat (blockTotals (SortHist_1 late_counts 1 None idle idle) 0)
       = 4 * unat (unscaled (SortHist_1 late_counts 1 None idle idle) 0)
   \<and> unat (blockTotals (SortHist_1 late_counts 1 None idle idle) 1)
       = 4 * unat (unscaled (SortHist_1 late_counts 1 None idle idle) 1)"
proof -
  let ?r = "SortHist 1024 1 late_counts 1 None idle idle"
  have u: "unscaled ?r (slot (2 ^ 1) (unat (1::uint)) k)
             = (\<Sum>k'<k. late_counts (slot (2 ^ 1) (unat (1::uint)) k'))" if "k < 2" for k
    by (rule SortHist_slot(1)) (use that in simp_all)
  have b: "blockTotals ?r (slot (2 ^ 1) (unat (1::uint)) k)
             = 4 * (\<Sum>k'<k. late_counts (slot (2 ^ 1) (unat (1::uint)) k'))" if "k < 2" for k
    by (rule SortHist_slot(2)) (use that in simp_all)
  have "unscaled ?r 0 = 0"
    using u [of 0] by (simp add: slot_def)
  moreover have "unscaled ?r 1 = 1"
    using u [of 1] by (simp add: slot_def upto1 late_counts_def)
  moreover have "blockTotals ?r 0 = 0"
    using b [of 0] by (simp add: slot_def)
  moreover have "blockTotals ?r 1 = 4"
    using b [of 1] by (simp add: slot_def upto1 late_counts_def)
  ultimately show ?thesis by (simp add: SortHist_1_def late_counts_def)
qed

text \<open>
  Claim C10, amended. The counts and the offsets are 32-bit unsigned integers, and
  neither the additions nor the multiplication by 4 are checked: the running offset of
  a slot is the exclusive prefix sum of the counts modulo \<open>2 ^ 32\<close>, and the value written
  back is 4 times that prefix sum modulo \<open>2 ^ 32\<close>. The written value is 4 times the
  prefix sum as a natural number exactly when 4 times the prefix sum of that slot is
  below \<open>2 ^ 32\<close>; this is so at every slot when 4 times the sum of all counts is below
  \<open>2 ^ 32\<close>.
\<close>

theorem SortHist_wraps_modulo:
  fixes numTasks :: uint and counts sh tot :: array and tsg :: "array option"
  assumes "1 \<le> NumBits" and "NumBits \<le> 7" and "NumDigits NumBits * unat numTasks < 2 ^ 31"
  shows "(let D = NumDigits NumBits; T = unat numTasks; m = D * T;
              r = SortHist 1024 NumBits counts numTasks tsg sh tot;
              cnt = (\<lambda>k. unat (counts (slot D T k)))
          in \<forall>k<m.
               unat (unscaled r (slot D T k)) = (\<Sum>k'<k. cnt k') mod 2 ^ 32
             \<and> unat (blockTotals r (slot D T k)) = (4 * (\<Sum>k'<k. cnt k')) mod 2 ^ 32
             \<and> (4 * (\<Sum>k'<m. cnt k') < 2 ^ 32 \<longrightarrow>
                  unat (blockTotals r (slot D T k)) = 4 * (\<Sum>k'<k. cnt k'))
             \<and> (unat (blockTotals r (slot D T k)) = 4 * (\<Sum>k'<k. cnt k'))
                 = (4 * (\<Sum>k'<k. cnt k') < 2 ^ 32))"
proof -
  define T where "T = unat numTasks"
  define m where "m = 2 ^ NumBits * T"
  define r where "r = SortHist 1024 NumBits counts numTasks tsg sh tot"
  define cnt where "cnt = (\<lambda>k. counts (slot (2 ^ NumBits) T k))"
  define P where "P = (\<lambda>k. \<Sum>k'<k. unat (cnt k'))"
  have n: "0 < NumBits" using assms(1) by simp
  note n7 = assms(2)
  have u: "unscaled r (slot (2 ^ NumBits) T k) = (\<Sum>k'<k. cnt k')" if "k < m" for k
    unfolding r_def T_def cnt_def
    by (rule SortHist_slot(1) [OF n n7 that [unfolded m_def T_def]])
  have b: "blockTotals r (slot (2 ^ NumBits) T k) = 4 * (\<Sum>k'<k. cnt k')" if "k < m" for k
    unfolding r_def T_def cnt_def
    by (rule SortHist_slot(2) [OF n n7 that [unfolded m_def T_def]])
  have s: "unat (\<Sum>k'<k. cnt k') = P k mod 2 ^ 32" for k
    unfolding P_def by (rule unat_sum_mod)
  have a1: "unat (unscaled r (slot (2 ^ NumBits) T k)) = P k mod 2 ^ 32" if "k < m" for k
    by (simp only: u [OF that] s)
  have a2: "unat (blockTotals r (slot (2 ^ NumBits) T k)) = (4 * P k) mod 2 ^ 32" if "k < m" for k
  proof -
    have "unat (blockTotals r (slot (2 ^ NumBits) T k)) = (4 * (P k mod 2 ^ 32)) mod 2 ^ 32"
      by (simp only: b [OF that] unat_times4 s)
    then show ?thesis by (simp only: mod_mult_right_eq)
  qed
  have a3: "unat (blockTotals r (slot (2 ^ NumBits) T k)) = 4 * P k"
    if "k < m" and w: "4 * P m < 2 ^ 32" for k
  proof -
    have "k \<le> m" using that(1) by simp
    then have "P k \<le> P m" unfolding P_def by (rule prefix_mono)
    then have "4 * P k < 2 ^ 32" using w by simp
    then show ?thesis by (simp only: a2 [OF that(1)] mod_less)
  qed
  have a4: "(unat (blockTotals r (slot (2 ^ NumBits) T k)) = 4 * P k) = (4 * P k < 2 ^ 32)"
    if "k < m" for k
  proof
    assume "unat (blockTotals r (slot (2 ^ NumBits) T k)) = 4 * P k"
    moreover have "unat (blockTotals r (slot (2 ^ NumBits) T k)) < 2 ^ 32"
      using unsigned_less [of "blockTotals r (slot (2 ^ NumBits) T k)"] by simp
    ultimately show "4 * P k < 2 ^ 32" by simp
  next
    assume "4 * P k < 2 ^ 32"
    then show "unat (blockTotals r (slot (2 ^ NumBits) T k)) = 4 * P k"
      by (simp only: a2 [OF that] mod_less)
  qed
  show ?thesis
    unfolding Let_def NumDigits_pow T_def [symmetric] m_def [symmetric] r_def [symmetric]
    using a1 a2 a3 a4 unfolding P_def cnt_def by simp
qed

theorem SortHist_wraps_modulo_witness:
  "(1::nat) \<le> 1 \<and> (1::nat) \<le> 7 \<and> NumDigits 1 * unat (4::uint) < 2 ^ 31
   \<and> NumDigits 1 * unat (2::uint) < 2 ^ 31
   \<and> 4 * (\<Sum>k<8. unat (example_counts (slot 2 4 k))) < 2 ^ 32
   \<and> unat (blockTotals (SortHist_1 example_counts 4 None idle idle) 3) = 40
   \<and> unat (unscaled (SortHist_1 wrap_counts 2 None idle idle) 2) = 1073741824
   \<and> unat (blockTotals (SortHist_1 wrap_counts 2 None idle idle) 2) = 0"
proof -
  have h: "(1::nat) \<le> 1" "(1::nat) \<le> 7" "NumDigits 1 * unat (4::uint) < 2 ^ 31"
    by (simp_all add: NumDigits_pow)
  have h': "NumDigits 1 * unat (2::uint) < 2 ^ 31"
    by (simp add: NumDigits_pow)
  have k: "(5::nat) < NumDigits 1 * unat (4::uint)" by (simp add: NumDigits_pow)
  have k': "(1::nat) < NumDigits 1 * unat (2::uint)" by (simp add: NumDigits_pow)
  note t = SortHist_wraps_modulo [OF h, of example_counts None idle idle, unfolded Let_def,
      rule_format, OF k]
  note t' = SortHist_wraps_modulo [OF h(1,2) h', of wrap_counts None idle idle, unfolded Let_def,
      rule_format, OF k']
  have s: "4 * (\<Sum>k<8. unat (example_counts (slot 2 4 k))) < 2 ^ 32"
    by (simp add: upto8 slot_def example_counts_def)
  have "unat (blockTotals (SortHist_1 example_counts 4 None idle idle) 3) = 40"
    using t [THEN conjunct2, THEN conjunct2, THEN conjunct1] s
    by (simp add: NumDigits_pow SortHist_1_def slot_def upto5 example_counts_def)
  moreover have "unat (unscaled (SortHist_1 wrap_counts 2 None idle idle) 2) = 1073741824"
    using t' [THEN conjunct1]
    by (simp add: NumDigits_pow SortHist_1_def slot_def upto1 wrap_counts_def)
  moreover have "unat (blockTotals (SortHist_1 wrap_counts 2 None idle idle) 2) = 0"
    using t' [THEN conjunct2, THEN conjunct1]
    by (simp add: NumDigits_pow SortHist_1_def slot_def upto1 wrap_counts_def)
  ultimately show ?thesis using h h' s by simp
qed

lemma SortHist_null_totals:
  "totalsScan (SortHist 1024 n g numTasks None sh tot) = None"
  by (simp add: SortHist_fields(3))

text \<open>
  Claim C3, as stated, at the example counts: the grand total of digit 0 is
  \<open>3 + 1 + 4 + 1\<close>, and it is not what the kernel writes to the totals output for digit 0.
\<close>

theorem SortHist_totals_grand_total_counterexample:
  "the (totalsScan (SortHist_1 example_counts 4 (Some idle) idle idle)) 0
     \<noteq> example_counts 0 + example_counts 2 + example_counts 4 + example_counts 6"
proof -
  have "the (totalsScan (SortHist 1024 1 example_counts 4 (Some idle) idle idle)) 0
          = (\<Sum>d'<0. \<Sum>b<unat (4::uint). example_counts (2 ^ 1 * b + d'))"
    by (rule SortHist_char(4) [THEN conjunct2]) simp_all
  then show ?thesis by (simp add: SortHist_1_def example_counts_def)
qed

text \<open>
  Claim C3, amended. With a totals output, the kernel writes for every digit the sum
  of the grand totals of the digits below it: the exclusive scan of the grand totals.
  The rest of the output array is not written, and without an output array there is
  no output.
\<close>

theorem SortHist_totals_exclusive_scan:
  fixes numTasks :: uint and counts sh tot totals :: array
  assumes "1 \<le> NumBits" and "NumBits \<le> 7" and "NumDigits NumBits * unat numTasks < 2 ^ 31"
  shows "(let D = NumDigits NumBits; T = unat numTasks;
              r = SortHist 1024 NumBits counts numTasks (Some totals) sh tot
          in totalsScan r \<noteq> None
           \<and> (\<forall>d<D. the (totalsScan r) d = (\<Sum>d'<d. \<Sum>b<T. counts (D * b + d')))
           \<and> (\<forall>i. D \<le> i \<longrightarrow> the (totalsScan r) i = totals i))
         \<and> totalsScan (SortHist 1024 NumBits counts numTasks None sh tot) = None"
proof -
  define T where "T = unat numTasks"
  define r where "r = SortHist 1024 NumBits counts numTasks (Some totals) sh tot"
  have n: "0 < NumBits" using assms(1) by simp
  note n7 = assms(2)
  have D: "(0::nat) < 2 ^ NumBits" by simp
  have c: "totalsScan r = Some (store 1024 (\<lambda>tid. tid < 2 ^ NumBits) (\<lambda>tid. tid)
             (\<lambda>tid. \<Sum>d'<tid. \<Sum>b<T. counts (2 ^ NumBits * b + d')) totals)
           \<and> the (totalsScan r) d = (\<Sum>d'<d. \<Sum>b<T. counts (2 ^ NumBits * b + d'))"
    if "d < 2 ^ NumBits" for d
    unfolding r_def T_def by (rule SortHist_char(4) [OF n n7 refl that])
  have s: "totalsScan r = Some (store 1024 (\<lambda>tid. tid < 2 ^ NumBits) (\<lambda>tid. tid)
             (\<lambda>tid. \<Sum>d'<tid. \<Sum>b<T. counts (2 ^ NumBits * b + d')) totals)"
    using c [OF D] by (rule conjunct1)
  have a: "totalsScan r \<noteq> None" by (simp add: s)
  have b: "the (totalsScan r) d = (\<Sum>d'<d. \<Sum>b<T. counts (2 ^ NumBits * b + d'))"
    if "d < 2 ^ NumBits" for d
    using c [OF that] by (rule conjunct2)
  have o: "the (totalsScan r) i = totals i" if "2 ^ NumBits \<le> i" for i
    using that by (simp add: s store_id_below)
  show ?thesis
    unfolding Let_def NumDigits_pow T_def [symmetric] r_def [symmetric]
    using a b o by (simp add: SortHist_null_totals)
qed

theorem SortHist_totals_exclusive_scan_witness:
  "(1::nat) \<le> 1 \<and> (1::nat) \<le> 7 \<and> NumDigits 1 * unat (4::uint) < 2 ^ 31
   \<and> the (totalsScan (SortHist_1 example_counts 4 (Some idle) idle idle)) 0 = 0
   \<and> the (totalsScan (SortHist_1 example_counts 4 (Some idle) idle idle)) 1 = 9
   \<and> the (totalsScan (SortHist_1 example_counts 4 (Some idle) idle idle)) 2 = idle 2"
proof -
  let ?r = "SortHist_1 example_counts 4 (Some idle) idle idle"
  have h: "(1::nat) \<le> 1" "(1::nat) \<le> 7" "NumDigits 1 * unat (4::uint) < 2 ^ 31"
    by (simp_all add: NumDigits_pow)
  note t = SortHist_totals_exclusive_scan [OF h, of example_counts idle idle idle,
      unfolded Let_def, THEN conjunct1]
  have u: "{..<4::nat} = {0, 1, 2, 3}" by auto
  have "the (totalsScan ?r) 0 = 0"
    using t [THEN conjunct2, THEN conjunct1, rule_format, of 0]
    by (simp add: NumDigits_pow SortHist_1_def)
  moreover have "the (totalsScan ?r) 1 = 9"
    using t [THEN conjunct2, THEN conjunct1, rule_format, of 1]
    by (simp add: NumDigits_pow SortHist_1_def upto1 u example_counts_def)
  moreover have "the (totalsScan ?r) 2 = idle 2"
    using t [THEN conjunct2, THEN conjunct2, rule_format, of 2]
    by (simp add: NumDigits_pow SortHist_1_def)
  ultimately show ?thesis using h by simp
qed

lemma example_prefixes:
  "exclusive_prefix 2 4 example_counts 0 0 = 0"
  "exclusive_prefix 2 4 example_counts 1 0 = 3"
  "exclusive_prefix 2 4 example_counts 2 0 = 4"
  "exclusive_prefix 2 4 example_counts 3 0 = 8"
  "exclusive_prefix 2 4 example_counts 0 1 = 9"
  "exclusive_prefix 2 4 example_counts 1 1 = 10"
  "exclusive_prefix 2 4 example_counts 2 1 = 15"
  "exclusive_prefix 2 4 example_counts 3 1 = 24"
  by code_simp+

lemma SortHist_1_example:
  assumes "b < 4" and "d < 2"
  shows "blockTotals (SortHist_1 example_counts 4 tsg sh tot) (2 * b + d)
           = 4 * exclusive_prefix 2 4 example_counts b d"
proof -
  have "blockTotals (SortHist 1024 1 example_counts 4 tsg sh tot) (2 ^ 1 * b + d)
          = 4 * exclusive_prefix (2 ^ 1) (unat (4::uint)) example_counts b d"
    by (rule SortHist_char(1)) (use assms in simp_all)
  then show ?thesis by (simp add: SortHist_1_def)
qed

lemma SortHist_1_example_rows:
  "blockTotals (SortHist_1 example_counts 4 tsg sh tot) 0 = 0"
  "blockTotals (SortHist_1 example_counts 4 tsg sh tot) 2 = 12"
  "blockTotals (SortHist_1 example_counts 4 tsg sh tot) 4 = 16"
  "blockTotals (SortHist_1 example_counts 4 tsg sh tot) 6 = 32"
  "blockTotals (SortHist_1 example_counts 4 tsg sh tot) 1 = 36"
  "blockTotals (SortHist_1 example_counts 4 tsg sh tot) 3 = 40"
  "blockTotals (SortHist_1 example_counts 4 tsg sh tot) 5 = 60"
  "blockTotals (SortHist_1 example_counts 4 tsg sh tot) 7 = 96"
  using SortHist_1_example [of 0 0 tsg sh tot] SortHist_1_example [of 1 0 tsg sh tot]
    SortHist_1_example [of 2 0 tsg sh tot] SortHist_1_example [of 3 0 tsg sh tot]
    SortHist_1_example [of 0 1 tsg sh tot] SortHist_1_example [of 1 1 tsg sh tot]
    SortHist_1_example [of 2 1 tsg sh tot] SortHist_1_example [of 3 1 tsg sh tot]
  unfolding example_prefixes by simp_all

text \<open>
  Claim C4, as stated: for one digit (\<open>NumBits = 1\<close>), four blocks and the counts 3, 1, 4, 1
  of digit 0 and 1, 5, 9, 2 of digit 1, the kernel does not write back the rows
  0, 12, 16, 32 and 0, 4, 24, 56.
\<close>

theorem SortHist_1_example_counterexample:
  "\<not> ([blockTotals (SortHist_1 example_counts 4 None idle idle) 0,
        blockTotals (SortHist_1 example_counts 4 None idle idle) 2,
        blockTotals (SortHist_1 example_counts 4 None idle idle) 4,
        blockTotals (SortHist_1 example_counts 4 None idle idle) 6] = [0, 12, 16, 32]
     \<and> [blockTotals (SortHist_1 example_counts 4 None idle idle) 1,
        blockTotals (SortHist_1 example_counts 4 None idle idle) 3,
        blockTotals (SortHist_1 example_counts 4 None idle idle) 5,
        blockTotals (SortHist_1 example_counts 4 None idle idle) 7] = [0, 4, 24, 56])"
  by (simp only: SortHist_1_example_rows) simp

text \<open>
  Claim C4, amended. For these counts the kernel writes back the row 0, 12, 16, 32 for
  digit 0 and the row 36, 40, 60, 96 for digit 1: the offsets of digit 1 continue after
  the 9 keys of digit 0. The slot of block \<open>b\<close> and digit \<open>d\<close> is element \<open>2 * b + d\<close>.
\<close>

theorem SortHist_1_example_offsets:
  "[blockTotals (SortHist_1 example_counts 4 tsg sh tot) 0,
    blockTotals (SortHist_1 example_counts 4 tsg sh tot) 2,
    blockTotals (SortHist_1 example_counts 4 tsg sh tot) 4,
    blockTotals (SortHist_1 example_counts 4 tsg sh tot) 6] = [0, 12, 16, 32]
   \<and> [blockTotals (SortHist_1 example_counts 4 tsg sh tot) 1,
    blockTotals (SortHist_1 example_counts 4 tsg sh tot) 3,
    blockTotals (SortHist_1 example_counts 4 tsg sh tot) 5,
    blockTotals (SortHist_1 example_counts 4 tsg sh tot) 7] = [36, 40, 60, 96]"
  by (simp only: SortHist_1_example_rows)

lemma concat_map_upt:
  "concat (map (\<lambda>d. map (f d) [0..<C]) [0..<D]) = map (\<lambda>p. f (p div C) (p mod C)) [0..<D * C]"
proof (induction D)
  case 0
  show ?case by simp
next
  case (Suc D)
  have "[0..<C + D * C] = [0..<D * C] @ [D * C..<C + D * C]"
    using upt_add_eq_append [of 0 "D * C" C] by (simp add: add.commute)
  also have "[D * C..<C + D * C] = map (\<lambda>i. i + D * C) [0..<C]"
    by (simp only: map_add_upt)
  finally have s: "[0..<C + D * C] = [0..<D * C] @ map (\<lambda>i. i + D * C) [0..<C]" .
  have "map (\<lambda>p. f (p div C) (p mod C)) (map (\<lambda>i. i + D * C) [0..<C]) = map (f D) [0..<C]"
    unfolding map_map by (rule map_cong) simp_all
  then show ?case by (simp add: s Suc.IH)
qed

lemma length_exclusive_scan: "length (exclusive_scan acc vs) = length vs"
  by (induction vs arbitrary: acc) simp_all

lemma exclusive_scan_nth:
  "i < length vs \<Longrightarrow> exclusive_scan acc vs ! i = acc + sum_list (take i vs)"
proof (induction vs arbitrary: acc i)
  case Nil
  then show ?case by simp
next
  case (Cons v vs)
  show ?case
  proof (cases i)
    case 0
    then show ?thesis by simp
  next
    case (Suc j)
    then have "j < length vs" using Cons.prems by simp
    then show ?thesis using Suc by (simp add: Cons.IH add.assoc)
  qed
qed

lemma sum_list_take_map_upt:
  fixes h :: "nat \<Rightarrow> uint"
  assumes "p \<le> m"
  shows "sum_list (take p (map h [0..<m])) = (\<Sum>q<p. h q)"
proof -
  have "take p (map h [0..<m]) = map h [0..<p]"
    using assms by (simp add: take_map min_def)
  then show ?thesis
    by (simp add: interv_sum_list_conv_sum_set_nat atLeast0LessThan)
qed

lemma transpose32:
  assumes "p < 1024"
  shows "p mod 32 * 32 + p div 32 < (1024::nat)"
    and "(p mod 32 * 32 + p div 32) mod 32 = p div 32"
    and "(p mod 32 * 32 + p div 32) div 32 = p mod 32"
proof -
  have d: "p div 32 < 32" using assms by simp
  have m: "p mod 32 \<le> 31" by simp
  have "p mod 32 * 32 \<le> 31 * 32" using m by (rule mult_le_mono1)
  then show "p mod 32 * 32 + p div 32 < (1024::nat)" using d by simp
  show "(p mod 32 * 32 + p div 32) mod 32 = p div 32" using d by simp
  show "(p mod 32 * 32 + p div 32) div 32 = p mod 32" using d by simp
qed

lemma strided_order_5:
  "strided_order 1024 5 = map (\<lambda>p. p mod 32 * 32 + p div 32) [0..<1024]"
proof -
  have "strided_order 1024 5 = map (\<lambda>p. p mod 32 * 32 + p div 32) [0..<32 * 32]"
    unfolding strided_order_def NumDigits_pow
    using concat_map_upt [of "\<lambda>d i. i * 32 + d" 32 32] by simp
  then show ?thesis by simp
qed

lemma strided_prefix_5:
  fixes x :: "nat \<Rightarrow> uint"
  assumes "p < 1024"
  shows "(\<Sum>q<p. x (q mod 32 * 32 + q div 32))
           = strided_exclusive 32 32 x (p mod 32 * 32 + p div 32)"
proof -
  define h where "h = (\<lambda>q. x (q mod 32 * 32 + q div 32))"
  have d: "p div 32 < 32" using assms by simp
  have "p = p div 32 * 32 + p mod 32" by simp
  then have "(\<Sum>q<p. h q) = (\<Sum>q<p div 32 * 32 + p mod 32. h q)" by simp
  also have "\<dots> = (\<Sum>q<p div 32 * 32. h q) + (\<Sum>c<p mod 32. h (p div 32 * 32 + c))"
    by (rule sum_split)
  also have "(\<Sum>q<p div 32 * 32. h q) = (\<Sum>w<p div 32. \<Sum>c<32. h (w * 32 + c))"
    by (rule sum_group [symmetric])
  also have "\<dots> = (\<Sum>w<p div 32. digit_total 32 32 x w)"
    unfolding digit_total_def h_def by (rule sum.cong) simp_all
  also have "(\<Sum>c<p mod 32. h (p div 32 * 32 + c)) = (\<Sum>c<p mod 32. x (c * 32 + p div 32))"
  proof (rule sum.cong)
    fix c
    assume "c \<in> {..<p mod 32}"
    then have "c < 32" by simp
    then show "h (p div 32 * 32 + c) = x (c * 32 + p div 32)" by (simp add: h_def)
  qed simp
  finally show ?thesis
    unfolding h_def strided_exclusive_def transpose32(2,3) [OF assms] .
qed

text \<open>
  Claim C5. For 5 bits, 32 digits, a block of 1024 threads takes the sequential
  regime, and the values the threads return, listed in the strided digit-major order,
  are the sequential exclusive prefix sum of the counts listed in that order. The order
  lists every thread once.
\<close>

theorem StridedMultiScan_5_reference:
  "StridedMultiScan 1024 5 x shared totals_shared
     = StridedMultiScan_sequential 1024 5 x shared totals_shared
   \<and> map (fst (StridedMultiScan 1024 5 x shared totals_shared)) (strided_order 1024 5)
     = exclusive_scan 0 (map x (strided_order 1024 5))
   \<and> distinct (strided_order 1024 5)
   \<and> set (strided_order 1024 5) = {..<1024}"
proof -
  let ?g = "\<lambda>p::nat. p mod 32 * 32 + p div 32"
  let ?f = "fst (StridedMultiScan 1024 5 x shared totals_shared)"
  have a: "StridedMultiScan 1024 5 x shared totals_shared
             = StridedMultiScan_sequential 1024 5 x shared totals_shared"
    by (simp add: StridedMultiScan_def NumDigits_pow WARP_SIZE_def)
  have inv: "?g (?g p) = p" if "p < 1024" for p
    by (simp only: transpose32(2,3) [OF that]) simp
  have b: "map ?f (map ?g [0..<1024]) = exclusive_scan 0 (map x (map ?g [0..<1024]))"
  proof (rule nth_equalityI)
    show "length (map ?f (map ?g [0..<1024])) = length (exclusive_scan 0 (map x (map ?g [0..<1024])))"
      by (simp add: length_exclusive_scan)
  next
    fix p
    assume "p < length (map ?f (map ?g [0..<1024]))"
    then have p: "p < 1024" by simp
    have "?f (?g p) = strided_exclusive (2 ^ 5) (1024 div 2 ^ 5) x (?g p)"
      by (rule StridedMultiScan_correct(1)) (simp_all add: transpose32(1) [OF p])
    then have l: "?f (?g p) = strided_exclusive 32 32 x (?g p)" by simp
    have "exclusive_scan 0 (map x (map ?g [0..<1024])) ! p
            = 0 + sum_list (take p (map x (map ?g [0..<1024])))"
      by (rule exclusive_scan_nth) (simp add: p)
    also have "\<dots> = (\<Sum>q<p. x (?g q))"
      using sum_list_take_map_upt [of p 1024 "\<lambda>q. x (?g q)"] p by (simp add: comp_def)
    also have "\<dots> = strided_exclusive 32 32 x (?g p)"
      by (rule strided_prefix_5 [OF p])
    finally have r: "exclusive_scan 0 (map x (map ?g [0..<1024])) ! p
                       = strided_exclusive 32 32 x (?g p)" .
    have e: "map ?f (map ?g [0..<1024]) ! p = ?f (?g p)" using p by simp
    show "map ?f (map ?g [0..<1024]) ! p = exclusive_scan 0 (map x (map ?g [0..<1024])) ! p"
      by (simp only: e l r)
  qed
  have "inj_on ?g {..<1024}"
    by (rule inj_on_inverseI [where g = ?g]) (simp add: inv)
  then have c: "distinct (map ?g [0..<1024])"
    by (simp add: distinct_map atLeast0LessThan)
  have d: "set (map ?g [0..<1024]) = {..<1024}"
  proof (rule set_eqI)
    fix t
    show "t \<in> set (map ?g [0..<1024]) \<longleftrightarrow> t \<in> {..<1024}"
    proof
      assume "t \<in> set (map ?g [0..<1024])"
      then obtain p where "p < 1024" "t = ?g p" by auto
      then show "t \<in> {..<1024}" using transpose32(1) [of p] by simp
    next
      assume "t \<in> {..<1024}"
      then have t: "t < 1024" by simp
      define q where "q = ?g t"
      have q: "q < 1024" unfolding q_def using t by (rule transpose32(1))
      have tq: "?g q = t" unfolding q_def by (rule inv [OF t])
      have "q \<in> set [0..<1024]" using q by simp
      then have "?g q \<in> ?g ` set [0..<1024]" by (rule imageI)
      then show "t \<in> set (map ?g [0..<1024])" unfolding tq set_map .
    qed
  qed
  show ?thesis
    unfolding strided_order_5 using a b c d by simp
qed

end
